theory Spec2Isabelle
  imports Complex_Main
begin

section \<open>Trading helpers of \<^verbatim>\<open>utils.py\<close>: state encoding and performance metrics\<close>

text \<open>
  The numeric functions of \<^verbatim>\<open>utils.py\<close> are embedded over the real numbers: a Python
  float is a \<^typ>\<open>real\<close> and the arithmetic is exact. Where the result depends on the
  rounding of the binary64 format, the function is embedded a second time with every
  operation rounded (the definitions whose names end in \<open>_f64\<close>). The values numpy
  produces instead of raising (\<^verbatim>\<open>nan\<close>, \<^verbatim>\<open>inf\<close>) are kept as values of their own, and the
  exceptions of Python (a list index out of range, a division by zero, an argmax of
  nothing) are error results.
\<close>

subsection \<open>Python and numpy primitives\<close>

datatype py_error = IndexError | ValueError | ZeroDivisionError

text \<open>What a numpy float operation yields: a number, or one of the non-finite values.\<close>

datatype np_float = Fin real | NegInf | PosInf | NaN

text \<open>\<^verbatim>\<open>xs[i]\<close> on a list: a negative index counts from the end.\<close>

definition py_index :: "'a list \<Rightarrow> int \<Rightarrow> py_error + 'a" where
  "py_index xs i =
     (let len = int (length xs); j = (if i < 0 then len + i else i)
      in if 0 \<le> j \<and> j < len then Inr (xs ! nat j) else Inl IndexError)"

text \<open>One bound of a slice, clipped into \<open>0..len\<close> the way Python does it.\<close>

definition slice_bound :: "nat \<Rightarrow> int \<Rightarrow> nat" where
  "slice_bound len i = (if i < 0 then nat (max (int len + i) 0) else min (nat i) len)"

text \<open>\<^verbatim>\<open>xs[a:b]\<close>: never raises.\<close>

definition py_slice :: "'a list \<Rightarrow> int \<Rightarrow> int \<Rightarrow> 'a list" where
  "py_slice xs a b =
     (let lo = slice_bound (length xs) a; hi = slice_bound (length xs) b
      in take (hi - lo) (drop lo xs))"

text \<open>\<^verbatim>\<open>k * xs\<close> on a list: no copy at all for \<open>k \<le> 0\<close>.\<close>

definition py_repeat :: "int \<Rightarrow> 'a list \<Rightarrow> 'a list" where
  "py_repeat k xs = concat (replicate (nat k) xs)"

text \<open>\<^verbatim>\<open>a / b\<close> on Python floats.\<close>

definition py_div :: "real \<Rightarrow> real \<Rightarrow> py_error + real" where
  "py_div a b = (if b = 0 then Inl ZeroDivisionError else Inr (a / b))"

text \<open>\<^verbatim>\<open>np.log\<close>: \<^verbatim>\<open>-inf\<close> at zero and \<^verbatim>\<open>nan\<close> below, with a warning and no exception.\<close>

definition np_log :: "real \<Rightarrow> np_float" where
  "np_log x = (if 0 < x then Fin (ln x) else if x = 0 then NegInf else NaN)"

definition np_mean :: "real list \<Rightarrow> real" where
  "np_mean xs = sum_list xs / real (length xs)"

text \<open>\<^verbatim>\<open>np.std\<close> with its default \<^verbatim>\<open>ddof=0\<close>: the root of the mean squared deviation.\<close>

definition np_std :: "real list \<Rightarrow> real" where
  "np_std xs = sqrt (np_mean (map (\<lambda>x. \<bar>x - np_mean xs\<bar> ^ 2) xs))"

text \<open>\<^verbatim>\<open>np.maximum.accumulate\<close>: the running maximum, entry by entry.\<close>

fun accumulate_from :: "real \<Rightarrow> real list \<Rightarrow> real list" where
  "accumulate_from m [] = []"
| "accumulate_from m (x # xs) = max m x # accumulate_from (max m x) xs"

fun maximum_accumulate :: "real list \<Rightarrow> real list" where
  "maximum_accumulate [] = []"
| "maximum_accumulate (x # xs) = x # accumulate_from x xs"

text \<open>
  \<^verbatim>\<open>np.argmax\<close>: one pass that keeps the best index so far and moves only to a strictly
  greater entry, so that the first of several maxima wins; nothing to pick from is a
  \<^verbatim>\<open>ValueError\<close>.
\<close>

fun argmax_from :: "nat \<Rightarrow> real \<Rightarrow> nat \<Rightarrow> real list \<Rightarrow> nat" where
  "argmax_from bi bv i [] = bi"
| "argmax_from bi bv i (x # xs) =
     (if bv < x then argmax_from i x (Suc i) xs else argmax_from bi bv (Suc i) xs)"

fun np_argmax :: "real list \<Rightarrow> py_error + nat" where
  "np_argmax [] = Inl ValueError"
| "np_argmax (x # xs) = Inr (argmax_from 0 x 1 xs)"

subsection \<open>The state encoder\<close>

definition sigmoid :: "real \<Rightarrow> real" where
  "sigmoid x = 1 / (1 + exp (- x))"

text \<open>
  The window of \<^verbatim>\<open>generate_price_state\<close> and \<^verbatim>\<open>generate_combined_state\<close> (the same line in
  both): the slice from \<open>start\<close> when \<open>start\<close> is not negative, and otherwise \<open>-start\<close>
  copies of the first price in front of the prices up to \<open>t\<close>.
\<close>

definition price_period :: "real list \<Rightarrow> int \<Rightarrow> int \<Rightarrow> py_error + real list" where
  "price_period stock_prices t n =
     (let start = t - n
      in if 0 \<le> start then Inr (py_slice stock_prices start (t + 1))
         else (case py_index stock_prices 0 of
                 Inl e \<Rightarrow> Inl e
               | Inr p0 \<Rightarrow> Inr (py_repeat (- start) [p0] @ py_slice stock_prices 0 (t + 1))))"

text \<open>
  The loop \<^verbatim>\<open>for i in range(n): diff.append(sigmoid(period[i+1] - period[i]))\<close>, with \<open>i\<close>
  the loop variable, \<open>k\<close> the iterations left and \<open>diff\<close> the list built so far.
\<close>

fun diff_loop :: "real list \<Rightarrow> int \<Rightarrow> nat \<Rightarrow> real list \<Rightarrow> py_error + real list" where
  "diff_loop period i 0 diff = Inr diff"
| "diff_loop period i (Suc k) diff =
     (case py_index period (i + 1) of
        Inl e \<Rightarrow> Inl e
      | Inr a \<Rightarrow>
          (case py_index period i of
             Inl e \<Rightarrow> Inl e
           | Inr b \<Rightarrow> diff_loop period (i + 1) k (diff @ [sigmoid (a - b)])))"

text \<open>The result is the array \<^verbatim>\<open>np.array([diff])\<close>: a list of rows with one row.\<close>

definition generate_price_state :: "real list \<Rightarrow> int \<Rightarrow> int \<Rightarrow> py_error + real list list" where
  "generate_price_state stock_prices t n =
     (case price_period stock_prices t n of
        Inl e \<Rightarrow> Inl e
      | Inr period \<Rightarrow>
          (case diff_loop period 0 (nat n) [] of
             Inl e \<Rightarrow> Inl e
           | Inr diff \<Rightarrow> Inr [diff]))"

definition generate_portfolio_state :: "real \<Rightarrow> real \<Rightarrow> real \<Rightarrow> np_float list list" where
  "generate_portfolio_state stock_price balance num_holding =
     [[np_log stock_price, np_log balance, np_log (num_holding + 1 / 10 ^ 6)]]"


subsection \<open>The performance metrics\<close>

definition daily_treasury_bond_return_rate :: real where
  "daily_treasury_bond_return_rate =
     (let r_year = 2.75 / 100 in (1 + r_year) powr (1 / 365) - 1)"

text \<open>
  The body of \<^verbatim>\<open>sharpe_ratio_custom\<close> below its first line, for a given risk-free rate.
  On no returns at all \<^verbatim>\<open>np.mean\<close> and \<^verbatim>\<open>np.std\<close> are \<^verbatim>\<open>nan\<close>, which is not equal to 0,
  and the quotient returned is \<^verbatim>\<open>nan\<close>.
\<close>

definition sharpe_ratio_at :: "real \<Rightarrow> real list \<Rightarrow> np_float" where
  "sharpe_ratio_at risk_free_rate return_rates =
     (if return_rates = [] then NaN
      else
        (let numerator = np_mean (map (\<lambda>x. x - risk_free_rate) return_rates);
             denominator = np_std (map (\<lambda>x. x - risk_free_rate) return_rates)
         in if denominator = 0 \<or> numerator = 0 then Fin 0
            else Fin (numerator / denominator)))"

definition sharpe_ratio_custom :: "real list \<Rightarrow> np_float" where
  "sharpe_ratio_custom return_rates =
     sharpe_ratio_at daily_treasury_bond_return_rate return_rates"

text \<open>
  \<^verbatim>\<open>maximum_drawdown\<close>: the values are a list of Python floats, so a peak of 0 makes the
  last division raise.
\<close>

definition maximum_drawdown :: "real list \<Rightarrow> py_error + real" where
  "maximum_drawdown portfolio_values =
     (case np_argmax (map2 (-) (maximum_accumulate portfolio_values) portfolio_values) of
        Inl e \<Rightarrow> Inl e
      | Inr end_index \<Rightarrow>
          if end_index = 0 then Inr 0
          else
            (case np_argmax (py_slice portfolio_values 0 (int end_index)) of
               Inl e \<Rightarrow> Inl e
             | Inr beginning_iudex \<Rightarrow>
                 (case py_index portfolio_values (int end_index) of
                    Inl e \<Rightarrow> Inl e
                  | Inr trough \<Rightarrow>
                      (case py_index portfolio_values (int beginning_iudex) of
                         Inl e \<Rightarrow> Inl e
                       | Inr peak \<Rightarrow> py_div (trough - peak) peak))))"

subsection \<open>Binary64 arithmetic and the functions as computed\<close>

text \<open>
  The binary64 format: 53 significant bits, exponents from \<open>-1022\<close> to \<open>1023\<close>. A real
  number is rounded to the nearest multiple of the unit in its last place, a tie going
  to the even multiple; below \<open>2\<^sup>-\<^sup>1\<^sup>0\<^sup>2\<^sup>2\<close> the unit stays \<open>2\<^sup>-\<^sup>1\<^sup>0\<^sup>7\<^sup>4\<close> (the subnormal numbers),
  and a result of magnitude \<open>2\<^sup>1\<^sup>0\<^sup>2\<^sup>4\<close> or more is an infinity. The two zeros of the
  format are not told apart: a zero is \<open>Fin 0\<close>.
\<close>

definition rne :: "real \<Rightarrow> int" where
  "rne x =
     (let f = \<lfloor>x\<rfloor>; r = x - of_int f
      in if r < 1 / 2 then f else if 1 / 2 < r then f + 1
         else if even f then f else f + 1)"

definition f64_exponent :: "real \<Rightarrow> int" where
  "f64_exponent x = max \<lfloor>log 2 \<bar>x\<bar>\<rfloor> (- 1022)"

definition round_f64 :: "real \<Rightarrow> np_float" where
  "round_f64 x =
     (if x = 0 then Fin 0
      else
        (let ulp = 2 powi (f64_exponent x - 52);
             y = of_int (rne (x / ulp)) * ulp
         in if 2 ^ 1024 \<le> \<bar>y\<bar> then (if 0 < x then PosInf else NegInf) else Fin y))"

text \<open>
  The operations on binary64 values: the exact result, rounded; the infinities and
  \<^verbatim>\<open>nan\<close> follow the rules of the format, and nothing raises (numpy warns).
\<close>

fun f64_neg :: "np_float \<Rightarrow> np_float" where
  "f64_neg (Fin x) = Fin (- x)"
| "f64_neg PosInf = NegInf"
| "f64_neg NegInf = PosInf"
| "f64_neg NaN = NaN"

fun f64_add :: "np_float \<Rightarrow> np_float \<Rightarrow> np_float" where
  "f64_add (Fin x) (Fin y) = round_f64 (x + y)"
| "f64_add NaN b = NaN"
| "f64_add a NaN = NaN"
| "f64_add PosInf NegInf = NaN"
| "f64_add NegInf PosInf = NaN"
| "f64_add PosInf b = PosInf"
| "f64_add NegInf b = NegInf"
| "f64_add (Fin x) b = b"

definition f64_sub :: "np_float \<Rightarrow> np_float \<Rightarrow> np_float" where
  "f64_sub a b = f64_add a (f64_neg b)"

fun f64_div :: "np_float \<Rightarrow> np_float \<Rightarrow> np_float" where
  "f64_div (Fin x) (Fin y) =
     (if y = 0 then (if x = 0 then NaN else if 0 < x then PosInf else NegInf)
      else round_f64 (x / y))"
| "f64_div NaN b = NaN"
| "f64_div a NaN = NaN"
| "f64_div (Fin x) b = Fin 0"
| "f64_div PosInf (Fin y) = (if 0 \<le> y then PosInf else NegInf)"
| "f64_div NegInf (Fin y) = (if 0 \<le> y then NegInf else PosInf)"
| "f64_div a b = NaN"

text \<open>\<^verbatim>\<open>np.exp\<close>, taken as the rounded exponential: 0 at \<^verbatim>\<open>-inf\<close>, \<^verbatim>\<open>inf\<close> on overflow.\<close>

fun np_exp :: "np_float \<Rightarrow> np_float" where
  "np_exp (Fin x) = round_f64 (exp x)"
| "np_exp PosInf = PosInf"
| "np_exp NegInf = Fin 0"
| "np_exp NaN = NaN"

text \<open>
  \<^verbatim>\<open>sigmoid\<close>, the loop of \<^verbatim>\<open>generate_price_state\<close> and the function itself, as computed: the
  prices are finite binary64 numbers, the window is built as before.
\<close>

definition sigmoid_f64 :: "np_float \<Rightarrow> np_float" where
  "sigmoid_f64 x = f64_div (Fin 1) (f64_add (Fin 1) (np_exp (f64_neg x)))"

fun diff_loop_f64 :: "real list \<Rightarrow> int \<Rightarrow> nat \<Rightarrow> np_float list \<Rightarrow> py_error + np_float list" where
  "diff_loop_f64 period i 0 diff = Inr diff"
| "diff_loop_f64 period i (Suc k) diff =
     (case py_index period (i + 1) of
        Inl e \<Rightarrow> Inl e
      | Inr a \<Rightarrow>
          (case py_index period i of
             Inl e \<Rightarrow> Inl e
           | Inr b \<Rightarrow>
               diff_loop_f64 period (i + 1) k (diff @ [sigmoid_f64 (f64_sub (Fin a) (Fin b))])))"

definition generate_price_state_f64 ::
  "real list \<Rightarrow> int \<Rightarrow> int \<Rightarrow> py_error + np_float list list" where
  "generate_price_state_f64 stock_prices t n =
     (case price_period stock_prices t n of
        Inl e \<Rightarrow> Inl e
      | Inr period \<Rightarrow>
          (case diff_loop_f64 period 0 (nat n) [] of
             Inl e \<Rightarrow> Inl e
           | Inr diff \<Rightarrow> Inr [diff]))"

fun f64_mul :: "np_float \<Rightarrow> np_float \<Rightarrow> np_float" where
  "f64_mul (Fin x) (Fin y) = round_f64 (x * y)"
| "f64_mul NaN b = NaN"
| "f64_mul a NaN = NaN"
| "f64_mul (Fin x) b = (if x = 0 then NaN else if 0 < x then b else f64_neg b)"
| "f64_mul a (Fin y) = (if y = 0 then NaN else if 0 < y then a else f64_neg a)"
| "f64_mul PosInf b = b"
| "f64_mul NegInf b = f64_neg b"

fun f64_sqrt :: "np_float \<Rightarrow> np_float" where
  "f64_sqrt (Fin x) = (if x < 0 then NaN else round_f64 (sqrt x))"
| "f64_sqrt PosInf = PosInf"
| "f64_sqrt a = NaN"

text \<open>
  The sum numpy computes for a one-dimensional array of binary64 numbers: fewer than
  eight entries are added from left to right; up to 128 entries are added in eight
  running sums over rows of eight, the eight sums are added in pairs and the entries
  left over are added one by one; a longer array is cut near its middle, at a multiple
  of eight, and the sums of the two parts are added.
\<close>

definition half8 :: "nat \<Rightarrow> nat" where
  "half8 n = n div 2 - (n div 2) mod 8"

definition block_sum :: "np_float list \<Rightarrow> np_float" where
  "block_sum xs =
     (let r = foldl (\<lambda>r j. map2 f64_add r (take 8 (drop (8 * j) xs))) (take 8 xs)
                [1..<length xs div 8];
          res = f64_add (f64_add (f64_add (r ! 0) (r ! 1)) (f64_add (r ! 2) (r ! 3)))
                        (f64_add (f64_add (r ! 4) (r ! 5)) (f64_add (r ! 6) (r ! 7)))
      in foldl f64_add res (drop (8 * (length xs div 8)) xs))"

function pairwise_sum :: "np_float list \<Rightarrow> np_float" where
  "pairwise_sum xs =
     (if length xs < 8 then foldl f64_add (Fin 0) xs
      else if length xs \<le> 128 then block_sum xs
      else f64_add (pairwise_sum (take (half8 (length xs)) xs))
                   (pairwise_sum (drop (half8 (length xs)) xs)))"
  by pat_completeness auto
termination
proof (relation "measure length")
  show "wf (measure length)" by simp
next
  fix xs :: "np_float list"
  assume "\<not> length xs < 8" "\<not> length xs \<le> 128"
  then show "(take (half8 (length xs)) xs, xs) \<in> measure length"
    by (simp add: half8_def)
next
  fix xs :: "np_float list"
  assume "\<not> length xs < 8" "\<not> length xs \<le> 128"
  then have "64 \<le> length xs div 2" by simp
  moreover have "length xs div 2 mod 8 < 8" by simp
  ultimately have "0 < half8 (length xs)"
    unfolding half8_def by linarith
  then show "(drop (half8 (length xs)) xs, xs) \<in> measure length"
    using \<open>\<not> length xs < 8\<close> by simp
qed

text \<open>\<^verbatim>\<open>np.add.reduce\<close> starts from the zero of the addition.\<close>

definition np_sum_f64 :: "np_float list \<Rightarrow> np_float" where
  "np_sum_f64 xs = f64_add (Fin 0) (pairwise_sum xs)"

text \<open>
  \<^verbatim>\<open>np.mean\<close> divides the sum by the number of entries; \<^verbatim>\<open>np.std\<close> subtracts that mean
  from every entry, multiplies each difference by itself, divides the sum of the
  squares by the number of entries and takes the root. On no entries both are \<^verbatim>\<open>nan\<close>.
\<close>

definition np_mean_f64 :: "np_float list \<Rightarrow> np_float" where
  "np_mean_f64 xs = f64_div (np_sum_f64 xs) (Fin (real (length xs)))"

definition np_std_f64 :: "np_float list \<Rightarrow> np_float" where
  "np_std_f64 xs =
     (let arrmean = f64_div (np_sum_f64 xs) (Fin (real (length xs)));
          x = map (\<lambda>a. f64_sub a arrmean) xs;
          x2 = map (\<lambda>a. f64_mul a a) x
      in f64_sqrt (f64_div (np_sum_f64 x2) (Fin (real (length xs)))))"

text \<open>
  The body of \<^verbatim>\<open>sharpe_ratio_custom\<close> below its first line as computed, at the binary64
  value \<open>risk_free_rate\<close> of that line, whichever number it is.
\<close>

definition sharpe_ratio_at_f64 :: "np_float \<Rightarrow> real list \<Rightarrow> np_float" where
  "sharpe_ratio_at_f64 risk_free_rate return_rates =
     (let numerator = np_mean_f64 (map (\<lambda>x. f64_sub (Fin x) risk_free_rate) return_rates);
          denominator = np_std_f64 (map (\<lambda>x. f64_sub (Fin x) risk_free_rate) return_rates)
      in if denominator = Fin 0 \<or> numerator = Fin 0 then Fin 0
         else f64_div numerator denominator)"

declare pairwise_sum.simps [simp del]

subsection \<open>The specification's own notions\<close>

text \<open>
  The window as the specification words it: the \<open>n + 1\<close> prices at the indices
  \<open>t - n, \<dots>, t\<close> when \<open>t - n\<close> is not negative, and otherwise \<open>n - t\<close> copies of the
  first price followed by the prices at the indices \<open>0, \<dots>, t\<close>.
\<close>

definition spec_period :: "real list \<Rightarrow> int \<Rightarrow> int \<Rightarrow> real list" where
  "spec_period p t n =
     (if 0 \<le> t - n then map (\<lambda>j. p ! nat (t - n + int j)) [0..<nat n + 1]
      else replicate (nat (n - t)) (p ! 0) @ map (\<lambda>j. p ! j) [0..<nat t + 1])"

text \<open>
  A series with its first \<open>k\<close> entries replaced by its first price, and a series with
  \<open>k\<close> copies of its first price in front of it.
\<close>

definition replace_leading :: "real list \<Rightarrow> nat \<Rightarrow> real list" where
  "replace_leading p k = replicate k (p ! 0) @ drop k p"

definition prepend_first :: "real list \<Rightarrow> nat \<Rightarrow> real list" where
  "prepend_first p k = replicate k (p ! 0) @ p"

text \<open>
  The first index of the greatest entry of a list, the running maximum of a value
  sequence at an index, and the sequence of the drops below the running maximum.
\<close>

definition first_argmax :: "real list \<Rightarrow> nat \<Rightarrow> bool" where
  "first_argmax xs k \<longleftrightarrow>
     k < length xs \<and> (\<forall>j < length xs. xs ! j \<le> xs ! k) \<and> (\<forall>j < k. xs ! j < xs ! k)"

definition running_max :: "real list \<Rightarrow> nat \<Rightarrow> real" where
  "running_max vs i = Max (set (take (Suc i) vs))"

definition drawdowns :: "real list \<Rightarrow> real list" where
  "drawdowns vs = map (\<lambda>i. running_max vs i - vs ! i) [0..<length vs]"

section \<open>Properties\<close>

subsection \<open>Indexing and the difference loop\<close>

lemma py_index_nat: "i < length xs \<Longrightarrow> py_index xs (int i) = Inr (xs ! i)"
  by (simp add: py_index_def)

lemma py_index_beyond: "int (length xs) \<le> i \<Longrightarrow> py_index xs i = Inl IndexError"
  by (simp add: py_index_def Let_def)

lemma diff_loop_ok:
  "i + k < length period \<Longrightarrow>
   diff_loop period (int i) k diff =
     Inr (diff @ map (\<lambda>j. sigmoid (period ! Suc j - period ! j)) [i..<i + k])"
proof (induction k arbitrary: i diff)
  case 0
  then show ?case by simp
next
  case (Suc k)
  have a: "py_index period (int i + 1) = Inr (period ! Suc i)"
    using Suc.prems py_index_nat [of "Suc i" period] by (simp add: add.commute)
  have b: "py_index period (int i) = Inr (period ! i)"
    using Suc.prems by (simp add: py_index_nat)
  have "diff_loop period (int (Suc i)) k (diff @ [sigmoid (period ! Suc i - period ! i)]) =
        Inr ((diff @ [sigmoid (period ! Suc i - period ! i)]) @
             map (\<lambda>j. sigmoid (period ! Suc j - period ! j)) [Suc i..<Suc i + k])"
    using Suc.prems by (intro Suc.IH) simp
  moreover have "[i..<i + Suc k] = i # [Suc i..<Suc i + k]"
    by (simp add: upt_conv_Cons)
  moreover have "int (Suc i) = int i + 1" by simp
  ultimately show ?case
    using a b by (simp del: upt_Suc of_nat_Suc)
qed

lemma diff_loop_fails:
  "0 < k \<Longrightarrow> length period \<le> i + k \<Longrightarrow> diff_loop period (int i) k diff = Inl IndexError"
proof (induction k arbitrary: i diff)
  case 0
  then show ?case by simp
next
  case (Suc k)
  show ?case
  proof (cases "Suc i < length period")
    case False
    then have "py_index period (int i + 1) = Inl IndexError"
      by (intro py_index_beyond) simp
    then show ?thesis by simp
  next
    case True
    have a: "py_index period (int i + 1) = Inr (period ! Suc i)"
      using True py_index_nat [of "Suc i" period] by (simp add: add.commute)
    have b: "py_index period (int i) = Inr (period ! i)"
      using True by (simp add: py_index_nat)
    have k: "0 < k" using True Suc.prems by (cases k) auto
    have "diff_loop period (int (Suc i)) k (diff @ [sigmoid (period ! Suc i - period ! i)]) =
          Inl IndexError"
      using k Suc.prems by (intro Suc.IH) simp_all
    moreover have "int (Suc i) = int i + 1" by simp
    ultimately show ?thesis using a b by (simp del: of_nat_Suc)
  qed
qed

lemma take_drop_nth:
  "a + k \<le> length xs \<Longrightarrow> take k (drop a xs) = map (\<lambda>j. xs ! (a + j)) [0..<k]"
  by (rule nth_equalityI) simp_all

lemma py_repeat_single: "py_repeat k [x] = replicate (nat k) x"
proof -
  have "concat (replicate m [x]) = replicate m x" for m
    by (induction m) simp_all
  then show ?thesis by (simp add: py_repeat_def)
qed

lemma length_spec_period:
  "0 \<le> t \<Longrightarrow> 0 \<le> n \<Longrightarrow> length (spec_period p t n) = nat n + 1"
  by (simp add: spec_period_def) linarith

lemma price_period_valid:
  assumes "0 \<le> t" "t < int (length p)" "0 \<le> n"
  shows "price_period p t n = Inr (spec_period p t n)"
proof (cases "0 \<le> t - n")
  case True
  have lo: "slice_bound (length p) (t - n) = nat (t - n)"
    using assms True by (simp add: slice_bound_def)
  have hi: "slice_bound (length p) (t + 1) = nat (t + 1)"
    using assms by (simp add: slice_bound_def)
  have "nat (t + 1) - nat (t - n) = nat n + 1"
    using assms True by linarith
  moreover have "nat (t - n) + (nat n + 1) \<le> length p"
    using assms True by linarith
  ultimately have "py_slice p (t - n) (t + 1) = map (\<lambda>j. p ! (nat (t - n) + j)) [0..<nat n + 1]"
    using lo hi by (simp add: py_slice_def take_drop_nth del: upt_Suc)
  moreover have "\<And>j. nat (t - n) + j = nat (t - n + int j)"
    using True by linarith
  ultimately show ?thesis
    using True by (simp add: price_period_def spec_period_def del: upt_Suc)
next
  case False
  have p0: "py_index p 0 = Inr (p ! 0)"
    using assms by (auto simp add: py_index_def)
  have "slice_bound (length p) (t + 1) = nat t + 1"
    using assms by (simp add: slice_bound_def)
  moreover have "slice_bound (length p) 0 = 0"
    by (simp add: slice_bound_def)
  moreover have "nat t + 1 \<le> length p"
    using assms by linarith
  ultimately have "py_slice p 0 (t + 1) = map (\<lambda>j. p ! j) [0..<nat t + 1]"
    using take_drop_nth [of 0 "nat t + 1" p] by (simp add: py_slice_def del: upt_Suc)
  then show ?thesis
    using False p0 by (simp add: price_period_def spec_period_def py_repeat_single del: upt_Suc)
qed

subsection \<open>The price window and its features\<close>

text \<open>
  Claim C1. For a non-empty price series, an index \<open>t\<close> with \<open>0 \<le> t < length\<close> and a
  window length \<open>n \<ge> 0\<close>, \<^verbatim>\<open>generate_price_state\<close> returns one row of \<open>n\<close> features.
  The window has \<open>n + 1\<close> prices: those at the indices \<open>t - n, \<dots>, t\<close> when \<open>t - n \<ge> 0\<close>,
  and otherwise \<open>n - t\<close> copies of the first price followed by the prices up to \<open>t\<close>.
  Feature \<open>i\<close> is the sigmoid of the difference of the window's entries \<open>i + 1\<close> and \<open>i\<close>.
\<close>

theorem generate_price_state_window:
  assumes "stock_prices \<noteq> []" "0 \<le> t" "t < int (length stock_prices)" "0 \<le> n"
  shows "length (spec_period stock_prices t n) = nat n + 1 \<and>
         sigmoid = (\<lambda>x. 1 / (1 + exp (- x))) \<and>
         generate_price_state stock_prices t n =
           Inr [map (\<lambda>i. sigmoid (spec_period stock_prices t n ! (i + 1) -
                                  spec_period stock_prices t n ! i)) [0..<nat n]]"
proof -
  let ?w = "spec_period stock_prices t n"
  have len: "length ?w = nat n + 1"
    using assms by (simp add: length_spec_period)
  have "diff_loop ?w (int 0) (nat n) [] =
        Inr ([] @ map (\<lambda>j. sigmoid (?w ! Suc j - ?w ! j)) [0..<0 + nat n])"
    using len by (intro diff_loop_ok) simp
  moreover have "sigmoid = (\<lambda>x. 1 / (1 + exp (- x)))"
    by (rule ext) (simp add: sigmoid_def)
  ultimately show ?thesis
    using len assms by (simp add: generate_price_state_def price_period_valid)
qed

theorem generate_price_state_window_witness:
  "[1, 2, 4 :: real] \<noteq> [] \<and> (0::int) \<le> 1 \<and> (1::int) < int (length [1, 2, 4 :: real]) \<and> (0::int) \<le> 3 \<and>
   spec_period [1, 2, 4] 1 3 = [1, 1, 1, 2] \<and>
   generate_price_state [1, 2, 4] 1 3 = Inr [[sigmoid 0, sigmoid 0, sigmoid 1]]"
  using generate_price_state_window [of "[1, 2, 4]" 1 3]
  by (simp add: spec_period_def eval_nat_numeral)

lemma sigmoid_bounds: "0 < sigmoid x \<and> sigmoid x < 1"
proof -
  have "0 < exp (- x)" by simp
  then show ?thesis by (simp add: sigmoid_def add_pos_pos)
qed

lemma diff_loop_shape:
  "diff_loop period i k diff = Inr r \<Longrightarrow>
   length r = length diff + k \<and> set r \<subseteq> set diff \<union> range sigmoid"
proof (induction k arbitrary: i diff)
  case 0
  then show ?case by auto
next
  case (Suc k)
  from Suc.prems obtain a b where
    "diff_loop period (i + 1) k (diff @ [sigmoid (a - b)]) = Inr r"
    by (auto split: sum.splits)
  from Suc.IH [OF this] show ?case by auto
qed

lemma length_py_slice:
  "length (py_slice xs a b) = slice_bound (length xs) b - slice_bound (length xs) a"
  by (auto simp add: py_slice_def slice_bound_def Let_def)

lemma price_period_defined:
  "p \<noteq> [] \<Longrightarrow> \<exists>period. price_period p t n = Inr period"
  by (cases p) (auto simp add: price_period_def py_index_def Let_def)

lemma length_price_period:
  assumes "p \<noteq> []" "price_period p t n = Inr period"
  shows "length period =
           (if 0 \<le> t - n then slice_bound (length p) (t + 1) - slice_bound (length p) (t - n)
            else nat (n - t) + slice_bound (length p) (t + 1))"
proof -
  have "py_index p 0 = Inr (p ! 0)"
    using assms(1) by (auto simp add: py_index_def)
  moreover have "slice_bound (length p) 0 = 0"
    by (simp add: slice_bound_def)
  ultimately show ?thesis
    using assms(2)
    by (auto simp add: price_period_def Let_def length_py_slice py_repeat_single
        split: if_splits)
qed


lemma generate_price_state_error_iff:
  assumes "p \<noteq> []"
  shows "(\<exists>rows. generate_price_state p t n = Inr rows) \<longleftrightarrow> \<not> (int (length p) \<le> t \<and> 1 \<le> n)"
    and "int (length p) \<le> t \<and> 1 \<le> n \<Longrightarrow> generate_price_state p t n = Inl IndexError"
proof -
  obtain period where per: "price_period p t n = Inr period"
    using assms price_period_defined by blast
  have len: "length period =
           (if 0 \<le> t - n then slice_bound (length p) (t + 1) - slice_bound (length p) (t - n)
            else nat (n - t) + slice_bound (length p) (t + 1))"
    using assms per by (rule length_price_period)
  have bad: "generate_price_state p t n = Inl IndexError" if "int (length p) \<le> t \<and> 1 \<le> n"
  proof -
    have "length period \<le> 0 + nat n"
      using that len by (auto simp add: slice_bound_def split: if_splits)
    moreover have "0 < nat n" using that by simp
    ultimately have "diff_loop period (int 0) (nat n) [] = Inl IndexError"
      by (intro diff_loop_fails)
    then show ?thesis using per by (simp add: generate_price_state_def)
  qed
  then show "int (length p) \<le> t \<and> 1 \<le> n \<Longrightarrow> generate_price_state p t n = Inl IndexError" .
  have good: "\<exists>rows. generate_price_state p t n = Inr rows" if "\<not> (int (length p) \<le> t \<and> 1 \<le> n)"
  proof (cases "1 \<le> n")
    case False
    then have "nat n = 0" by simp
    then show ?thesis using per by (simp add: generate_price_state_def)
  next
    case True
    then have t: "t < int (length p)" using that by simp
    have "0 + nat n < length period"
      using True t len by (auto simp add: slice_bound_def split: if_splits)
    then have "diff_loop period (int 0) (nat n) [] =
        Inr ([] @ map (\<lambda>j. sigmoid (period ! Suc j - period ! j)) [0..<0 + nat n])"
      by (rule diff_loop_ok)
    then show ?thesis using per by (simp add: generate_price_state_def)
  qed
  show "(\<exists>rows. generate_price_state p t n = Inr rows) \<longleftrightarrow> \<not> (int (length p) \<le> t \<and> 1 \<le> n)"
    using good bad by auto
qed

subsection \<open>Length and range of the features\<close>

text \<open>
  In exact real arithmetic: for a price series, a window length \<open>n\<close> and a valid index \<open>t\<close>,
  the row that \<^verbatim>\<open>generate_price_state\<close> returns has exactly \<open>n\<close> elements (none for a negative
  \<open>n\<close>), each strictly between 0 and 1, since the sigmoid of every real number is.
\<close>

theorem generate_price_state_bounded:
  assumes "0 \<le> t" "t < int (length stock_prices)"
  shows "(\<forall>x. 0 < sigmoid x \<and> sigmoid x < 1) \<and>
         (\<exists>row. generate_price_state stock_prices t n = Inr [row] \<and> length row = nat n \<and>
                (\<forall>x \<in> set row. 0 < x \<and> x < 1))"
proof -
  have ne: "stock_prices \<noteq> []" using assms by auto
  then obtain rows where rows: "generate_price_state stock_prices t n = Inr rows"
    using generate_price_state_error_iff(1) [OF ne, of t n] assms by auto
  then obtain period row where
    "diff_loop period 0 (nat n) [] = Inr row" and r: "rows = [row]"
    by (auto simp add: generate_price_state_def split: sum.splits)
  then have "length row = nat n" and "set row \<subseteq> range sigmoid"
    using diff_loop_shape [of period 0 "nat n" "[]" row] by auto
  then have "length row = nat n \<and> (\<forall>x \<in> set row. 0 < x \<and> x < 1)"
    using sigmoid_bounds by auto
  then show ?thesis using rows r sigmoid_bounds by blast
qed

theorem generate_price_state_bounded_witness:
  "(0::int) \<le> 1 \<and> (1::int) < int (length [3, 5 :: real]) \<and>
   generate_price_state [3, 5] 1 1 = Inr [[sigmoid 2]] \<and> 0 < sigmoid 2 \<and> sigmoid 2 < 1"
proof -
  have a: "(0::int) \<le> 1" and b: "(1::int) < int (length [3, 5 :: real])" by simp_all
  have c: "generate_price_state [3, 5] 1 1 = Inr [[sigmoid 2]]"
    by (simp add: generate_price_state_def price_period_def py_slice_def slice_bound_def
        py_index_def)
  from generate_price_state_bounded [OF a b, of 1] c show ?thesis by simp
qed

subsection \<open>When the list accesses are in bounds\<close>

text \<open>
  The accesses of \<^verbatim>\<open>generate_price_state\<close> are also in bounds outside \<open>0 \<le> t \<le> length - 1\<close>:
  at \<open>t = -1\<close> the padding alone has \<open>n + 1\<close> entries, and at \<open>n = 0\<close> the loop reads nothing.
\<close>

theorem generate_price_state_in_bounds_counterexample:
  "generate_price_state [1] (- 1) 1 = Inr [[sigmoid 0]] \<and> \<not> (0::int) \<le> - 1 \<and>
   generate_price_state [1] 1 0 = Inr [[]] \<and> \<not> (1::int) \<le> int (length [1 :: real]) - 1"
  by (simp add: generate_price_state_def price_period_def py_slice_def slice_bound_def
      py_index_def py_repeat_def)

text \<open>
  Claim C10, amended. For a non-empty price series: when \<open>0 \<le> t \<le> length - 1\<close> and
  \<open>n \<ge> 0\<close> the period has exactly \<open>n + 1\<close> elements and the function returns; when
  \<open>t \<ge> length\<close> and \<open>n \<ge> 1\<close> the period has fewer than \<open>n + 1\<close> elements and the function
  raises \<^verbatim>\<open>IndexError\<close>; and the function returns exactly when \<open>t \<le> length - 1\<close> or
  \<open>n \<le> 0\<close>.
\<close>

theorem generate_price_state_in_bounds:
  assumes "stock_prices \<noteq> []"
  shows "(0 \<le> t \<and> t \<le> int (length stock_prices) - 1 \<and> 0 \<le> n \<longrightarrow>
           (\<exists>period. price_period stock_prices t n = Inr period \<and> length period = nat n + 1) \<and>
           (\<exists>rows. generate_price_state stock_prices t n = Inr rows)) \<and>
         (int (length stock_prices) \<le> t \<and> 1 \<le> n \<longrightarrow>
           (\<exists>period. price_period stock_prices t n = Inr period \<and> length period < nat n + 1) \<and>
           generate_price_state stock_prices t n = Inl IndexError) \<and>
         ((\<exists>rows. generate_price_state stock_prices t n = Inr rows) \<longleftrightarrow>
            t \<le> int (length stock_prices) - 1 \<or> n \<le> 0)"
proof -
  obtain period where per: "price_period stock_prices t n = Inr period"
    using assms price_period_defined by blast
  have len: "length period =
           (if 0 \<le> t - n
            then slice_bound (length stock_prices) (t + 1) - slice_bound (length stock_prices) (t - n)
            else nat (n - t) + slice_bound (length stock_prices) (t + 1))"
    using assms per by (rule length_price_period)
  have iff: "(\<exists>rows. generate_price_state stock_prices t n = Inr rows) \<longleftrightarrow>
            t \<le> int (length stock_prices) - 1 \<or> n \<le> 0"
    using generate_price_state_error_iff(1) [OF assms, of t n] by auto
  have valid: "length period = nat n + 1"
    if "0 \<le> t \<and> t \<le> int (length stock_prices) - 1 \<and> 0 \<le> n"
    using that len by (auto simp add: slice_bound_def split: if_splits)
  have beyond: "length period < nat n + 1" if "int (length stock_prices) \<le> t \<and> 1 \<le> n"
    using that len by (auto simp add: slice_bound_def split: if_splits)
  show ?thesis
    using per iff valid beyond generate_price_state_error_iff(2) [OF assms, of t n]
    by auto
qed

theorem generate_price_state_in_bounds_witness:
  "[1, 2 :: real] \<noteq> [] \<and>
   ((0::int) \<le> 1 \<and> (1::int) \<le> int (length [1, 2 :: real]) - 1 \<and> (0::int) \<le> 1) \<and>
   price_period [1, 2] 1 1 = Inr [1, 2] \<and>
   generate_price_state [1, 2] 1 1 = Inr [[sigmoid 1]] \<and>
   (int (length [1, 2 :: real]) \<le> 2 \<and> (1::int) \<le> 1) \<and>
   price_period [1, 2] 2 1 = Inr [2] \<and>
   generate_price_state [1, 2] 2 1 = Inl IndexError"
proof -
  have ne: "[1, 2 :: real] \<noteq> []" by simp
  have a: "price_period [1, 2] 1 1 = Inr [1, 2]" "price_period [1, 2] 2 1 = Inr [2]"
    by (simp_all add: price_period_def py_slice_def slice_bound_def)
  have b: "generate_price_state [1, 2] 1 1 = Inr [[sigmoid 1]]"
    by (simp add: generate_price_state_def a py_index_def)
  from generate_price_state_in_bounds [OF ne, of 1 1]
    generate_price_state_in_bounds [OF ne, of 2 1] a b
  show ?thesis by simp
qed

subsection \<open>Padding\<close>

text \<open>
  Replacing the first \<open>n - t\<close> entries of the series by its first price changes the
  encoding at \<open>t\<close>: on the prices 1, 2, 3 with \<open>t = 1\<close> and \<open>n = 3\<close> the price at index 1
  is inside the window and is overwritten.
\<close>

theorem padding_replace_counterexample:
  "(0::int) \<le> 1 \<and> (1::int) < 3 \<and> (3::int) \<le> int (length [1, 2, 3 :: real]) \<and>
   generate_price_state [1, 2, 3] 1 3 \<noteq>
   generate_price_state (replace_leading [1, 2, 3] (nat (3 - 1))) 1 3"
proof -
  have a: "generate_price_state [1, 2, 3] 1 3 = Inr [[sigmoid 0, sigmoid 0, sigmoid 1]]"
    by (simp add: generate_price_state_def price_period_def py_slice_def slice_bound_def
        py_index_def py_repeat_def eval_nat_numeral)
  have b: "generate_price_state (replace_leading [1, 2, 3] (nat (3 - 1))) 1 3 =
           Inr [[sigmoid 0, sigmoid 0, sigmoid 0]]"
    by (simp add: generate_price_state_def price_period_def py_slice_def slice_bound_def
        py_index_def py_repeat_def replace_leading_def eval_nat_numeral)
  have "sigmoid 1 \<noteq> sigmoid 0"
    by (simp add: sigmoid_def)
  then show ?thesis using a b by simp
qed

text \<open>
  Claim C4, amended. For a non-empty price series and \<open>0 \<le> t < n\<close>, the encoding at \<open>t\<close>
  equals the encoding at index \<open>n\<close> of the series with \<open>n - t\<close> copies of its first price
  put in front of it.
\<close>

theorem padding_prepend:
  assumes "stock_prices \<noteq> []" "0 \<le> t" "t < n"
  shows "generate_price_state stock_prices t n =
         generate_price_state (prepend_first stock_prices (nat (n - t))) n n"
proof -
  let ?k = "nat (n - t)"
  let ?q = "prepend_first stock_prices ?k"
  have p0: "py_index stock_prices 0 = Inr (stock_prices ! 0)"
    using assms(1) by (auto simp add: py_index_def)
  have lq: "length ?q = ?k + length stock_prices"
    by (simp add: prepend_first_def)
  have "slice_bound (length ?q) (n + 1) = ?k + slice_bound (length stock_prices) (t + 1)"
    using assms lq by (auto simp add: slice_bound_def)
  then have "py_slice ?q 0 (n + 1) =
             replicate ?k (stock_prices ! 0) @ py_slice stock_prices 0 (t + 1)"
    by (simp add: py_slice_def slice_bound_def prepend_first_def)
  then have "price_period ?q n n = price_period stock_prices t n"
    using assms p0 by (simp add: price_period_def py_repeat_single)
  then show ?thesis by (simp add: generate_price_state_def)
qed

theorem padding_prepend_witness:
  "[1, 2, 3 :: real] \<noteq> [] \<and> (0::int) \<le> 1 \<and> (1::int) < 3 \<and>
   prepend_first [1, 2, 3] (nat (3 - 1)) = [1, 1, 1, 2, 3] \<and>
   generate_price_state [1, 2, 3] 1 3 = Inr [[sigmoid 0, sigmoid 0, sigmoid 1]] \<and>
   generate_price_state [1, 1, 1, 2, 3] 3 3 = Inr [[sigmoid 0, sigmoid 0, sigmoid 1]]"
proof -
  have a: "generate_price_state [1, 2, 3] 1 3 = Inr [[sigmoid 0, sigmoid 0, sigmoid 1]]"
    by (simp add: generate_price_state_def price_period_def py_slice_def slice_bound_def
        py_index_def py_repeat_def eval_nat_numeral)
  have b: "prepend_first [1, 2, 3] (nat (3 - 1)) = [1, 1, 1, 2, 3]"
    by (simp add: prepend_first_def eval_nat_numeral)
  from padding_prepend [of "[1, 2, 3]" 1 3] a b show ?thesis by simp
qed

subsection \<open>The combined state and the portfolio features\<close>



text \<open>
  Claim C9. For a positive stock price and a positive balance, \<^verbatim>\<open>generate_portfolio_state\<close>
  with no holding yields three numbers: the argument \<open>0 + 10\<^sup>-\<^sup>6\<close> of the third logarithm is
  positive, so that feature is a logarithm and neither \<^verbatim>\<open>nan\<close> nor \<^verbatim>\<open>-inf\<close>.
\<close>

theorem generate_portfolio_state_zero_holding:
  assumes "0 < stock_price" "0 < balance"
  shows "(0::real) < 0 + 1 / 10 ^ 6 \<and>
         generate_portfolio_state stock_price balance 0 =
           [[Fin (ln stock_price), Fin (ln balance), Fin (ln (0 + 1 / 10 ^ 6))]]"
  using assms by (simp add: generate_portfolio_state_def np_log_def)

theorem generate_portfolio_state_zero_holding_witness:
  "(0::real) < 5 \<and> (0::real) < 7 \<and>
   generate_portfolio_state 5 7 0 = [[Fin (ln 5), Fin (ln 7), Fin (ln (1 / 10 ^ 6))]]"
  using generate_portfolio_state_zero_holding [of 5 7] by simp

subsection \<open>Argmax and the running maximum\<close>

lemma first_argmax_unique: "first_argmax xs k \<Longrightarrow> first_argmax xs k' \<Longrightarrow> k = k'"
  unfolding first_argmax_def by (meson linorder_neqE_nat not_less)

lemma argmax_from_first:
  assumes "bi < length pre" "pre ! bi = bv" "\<forall>j < length pre. pre ! j \<le> bv"
    "\<forall>j < bi. pre ! j < bv"
  shows "first_argmax (pre @ xs) (argmax_from bi bv (length pre) xs)"
  using assms
proof (induction xs arbitrary: pre bi bv)
  case Nil
  then show ?case by (simp add: first_argmax_def)
next
  case (Cons x xs)
  show ?case
  proof (cases "bv < x")
    case True
    have "first_argmax ((pre @ [x]) @ xs) (argmax_from (length pre) x (length (pre @ [x])) xs)"
    proof (rule Cons.IH)
      show "\<forall>j < length (pre @ [x]). (pre @ [x]) ! j \<le> x"
        using Cons.prems(3) True by (auto simp add: nth_append less_Suc_eq)
      show "\<forall>j < length pre. (pre @ [x]) ! j < x"
        using Cons.prems(3) True by (auto simp add: nth_append)
    qed simp_all
    then show ?thesis using True by simp
  next
    case False
    have "first_argmax ((pre @ [x]) @ xs) (argmax_from bi bv (length (pre @ [x])) xs)"
    proof (rule Cons.IH)
      show "bi < length (pre @ [x])" using Cons.prems(1) by simp
      show "(pre @ [x]) ! bi = bv" using Cons.prems(1,2) by (simp add: nth_append)
      show "\<forall>j < length (pre @ [x]). (pre @ [x]) ! j \<le> bv"
        using Cons.prems(3) False by (auto simp add: nth_append less_Suc_eq)
      show "\<forall>j < bi. (pre @ [x]) ! j < bv"
        using Cons.prems(1,4) by (auto simp add: nth_append)
    qed
    then show ?thesis using False by simp
  qed
qed

lemma np_argmax_first:
  assumes "xs \<noteq> []"
  shows "\<exists>k. np_argmax xs = Inr k \<and> first_argmax xs k"
proof -
  obtain x ys where xs: "xs = x # ys" using assms by (cases xs) auto
  have "first_argmax ([x] @ ys) (argmax_from 0 x (length [x]) ys)"
    by (rule argmax_from_first) simp_all
  then show ?thesis using xs by simp
qed

lemma length_accumulate_from: "length (accumulate_from m xs) = length xs"
  by (induction xs arbitrary: m) simp_all

lemma nth_accumulate_from:
  "i < length xs \<Longrightarrow> accumulate_from m xs ! i = Max (insert m (set (take (Suc i) xs)))"
proof (induction xs arbitrary: m i)
  case Nil
  then show ?case by simp
next
  case (Cons x xs)
  show ?case
  proof (cases i)
    case 0
    then show ?thesis by (simp add: max.commute)
  next
    case (Suc j)
    then have "accumulate_from (max m x) xs ! j = Max (insert (max m x) (set (take (Suc j) xs)))"
      using Cons.prems by (intro Cons.IH) simp
    also have "\<dots> = Max (insert m (insert x (set (take (Suc j) xs))))"
    proof -
      have "set (take (Suc j) xs) \<noteq> {}"
        using Cons.prems Suc by (cases xs) auto
      then show ?thesis by (simp add: max.assoc)
    qed
    finally show ?thesis using Suc by simp
  qed
qed

lemma length_maximum_accumulate: "length (maximum_accumulate vs) = length vs"
  by (cases vs) (simp_all add: length_accumulate_from)

lemma nth_maximum_accumulate:
  "i < length vs \<Longrightarrow> maximum_accumulate vs ! i = running_max vs i"
proof (cases vs)
  case Nil
  then show "i < length vs \<Longrightarrow> ?thesis" by simp
next
  case (Cons x xs)
  assume "i < length vs"
  then show ?thesis
    using Cons by (cases i) (simp_all add: running_max_def nth_accumulate_from)
qed

lemma drawdowns_eq: "map2 (-) (maximum_accumulate vs) vs = drawdowns vs"
  by (rule nth_equalityI)
    (simp_all add: drawdowns_def length_maximum_accumulate nth_maximum_accumulate)

lemma nth_drawdowns:
  "i < length vs \<Longrightarrow> drawdowns vs ! i = running_max vs i - vs ! i"
  by (simp add: drawdowns_def)

lemma drawdowns_first: "vs \<noteq> [] \<Longrightarrow> drawdowns vs ! 0 = 0"
  by (cases vs) (simp_all add: nth_drawdowns running_max_def)

lemma py_slice_prefix: "k \<le> length xs \<Longrightarrow> py_slice xs 0 (int k) = take k xs"
  by (simp add: py_slice_def slice_bound_def)

lemma maximum_drawdown_char:
  assumes "vs \<noteq> []"
  shows "\<exists>e. first_argmax (drawdowns vs) e \<and>
           (if e = 0 then maximum_drawdown vs = Inr 0
            else \<exists>b. first_argmax (take e vs) b \<and>
                   maximum_drawdown vs = py_div (vs ! e - vs ! b) (vs ! b))"
proof -
  have "drawdowns vs \<noteq> []"
    using assms by (simp add: drawdowns_def)
  then obtain e where e: "np_argmax (drawdowns vs) = Inr e" and fe: "first_argmax (drawdowns vs) e"
    using np_argmax_first by blast
  have le: "e < length vs"
    using fe by (simp add: first_argmax_def drawdowns_def)
  show ?thesis
  proof (cases "e = 0")
    case True
    then have "maximum_drawdown vs = Inr 0"
      using e by (simp add: maximum_drawdown_def drawdowns_eq)
    then show ?thesis using fe True by auto
  next
    case False
    have sl: "py_slice vs 0 (int e) = take e vs"
      using le by (simp add: py_slice_prefix)
    have "take e vs \<noteq> []"
      using False assms by simp
    then obtain b where b: "np_argmax (take e vs) = Inr b" and fb: "first_argmax (take e vs) b"
      using np_argmax_first by blast
    have lb: "b < length vs"
      using fb le by (simp add: first_argmax_def)
    have "maximum_drawdown vs = py_div (vs ! e - vs ! b) (vs ! b)"
      using e False sl b le lb
      by (simp add: maximum_drawdown_def drawdowns_eq py_index_nat)
    then show ?thesis using fe fb False by (intro exI [of _ e]) auto
  qed
qed

lemma running_max_sorted:
  assumes "sorted_wrt (<) vs" "i < length vs"
  shows "running_max vs i = vs ! i"
  unfolding running_max_def
proof (rule Max_eqI)
  show "finite (set (take (Suc i) vs))" by simp
  show "vs ! i \<in> set (take (Suc i) vs)"
    using assms(2) by (auto simp add: in_set_conv_nth intro!: exI [of _ i])
  fix y assume "y \<in> set (take (Suc i) vs)"
  then obtain j where j: "j < Suc i" "j < length vs" "y = vs ! j"
    by (auto simp add: in_set_conv_nth)
  show "y \<le> vs ! i"
  proof (cases "j = i")
    case True
    then show ?thesis using j by simp
  next
    case False
    then have "j < i" using j by simp
    then have "vs ! j < vs ! i"
      using assms by (simp add: sorted_wrt_nth_less)
    then show ?thesis using j by simp
  qed
qed

subsection \<open>Maximum drawdown\<close>



text \<open>
  Claim C7. On a non-empty, strictly increasing sequence of portfolio values,
  \<^verbatim>\<open>maximum_drawdown\<close> returns 0.
\<close>

theorem maximum_drawdown_increasing:
  assumes "portfolio_values \<noteq> []" "sorted_wrt (<) portfolio_values"
  shows "maximum_drawdown portfolio_values = Inr 0"
proof -
  obtain e where fe: "first_argmax (drawdowns portfolio_values) e"
    and r: "if e = 0 then maximum_drawdown portfolio_values = Inr 0
            else \<exists>b. first_argmax (take e portfolio_values) b \<and>
                   maximum_drawdown portfolio_values =
                     py_div (portfolio_values ! e - portfolio_values ! b) (portfolio_values ! b)"
    using maximum_drawdown_char [OF assms(1)] by blast
  have zero: "drawdowns portfolio_values ! i = 0" if "i < length portfolio_values" for i
    using that assms(2) by (simp add: nth_drawdowns running_max_sorted)
  have "e = 0"
  proof (rule ccontr)
    assume "e \<noteq> 0"
    then have "drawdowns portfolio_values ! 0 < drawdowns portfolio_values ! e"
      using fe by (simp add: first_argmax_def)
    moreover have "e < length portfolio_values"
      using fe by (simp add: first_argmax_def drawdowns_def)
    ultimately show False using zero [of 0] zero [of e] assms(1) by simp
  qed
  then show ?thesis using r by simp
qed

theorem maximum_drawdown_increasing_witness:
  "[100, 110, 120, 130 :: real] \<noteq> [] \<and> sorted_wrt (<) [100, 110, 120, 130 :: real] \<and>
   maximum_drawdown [100, 110, 120, 130] = Inr 0"
  using maximum_drawdown_increasing [of "[100, 110, 120, 130]"] by simp

text \<open>
  Claim C8. On a non-empty sequence of positive portfolio values, \<^verbatim>\<open>maximum_drawdown\<close>
  returns a number that is negative or zero.
\<close>

theorem maximum_drawdown_nonpositive:
  assumes "portfolio_values \<noteq> []" "\<forall>x \<in> set portfolio_values. 0 < x"
  shows "\<exists>r. maximum_drawdown portfolio_values = Inr r \<and> r \<le> 0"
proof -
  let ?vs = portfolio_values
  obtain e where fe: "first_argmax (drawdowns ?vs) e"
    and r: "if e = 0 then maximum_drawdown ?vs = Inr 0
            else \<exists>b. first_argmax (take e ?vs) b \<and>
                   maximum_drawdown ?vs = py_div (?vs ! e - ?vs ! b) (?vs ! b)"
    using maximum_drawdown_char [OF assms(1)] by blast
  show ?thesis
  proof (cases "e = 0")
    case True
    then show ?thesis using r by simp
  next
    case False
    then obtain b where fb: "first_argmax (take e ?vs) b"
      and md: "maximum_drawdown ?vs = py_div (?vs ! e - ?vs ! b) (?vs ! b)"
      using r by auto
    have le: "e < length ?vs"
      using fe by (simp add: first_argmax_def drawdowns_def)
    have lb: "b < e" using fb by (simp add: first_argmax_def)
    have "drawdowns ?vs ! 0 < drawdowns ?vs ! e"
      using fe False by (simp add: first_argmax_def)
    moreover have "drawdowns ?vs ! 0 = 0"
      using assms(1) by (rule drawdowns_first)
    ultimately have gt: "?vs ! e < running_max ?vs e"
      using le by (simp add: nth_drawdowns)
    have "running_max ?vs e \<in> set (take (Suc e) ?vs)"
      unfolding running_max_def using le assms(1) by (intro Max_in) auto
    then have "running_max ?vs e \<in> set (take e ?vs)"
      using gt le by (auto simp add: take_Suc_conv_app_nth)
    then obtain j where j: "j < e" "running_max ?vs e = take e ?vs ! j"
      using le by (auto simp add: in_set_conv_nth)
    have "j < length (take e ?vs)"
      using j le by simp
    then have "take e ?vs ! j \<le> take e ?vs ! b"
      using fb unfolding first_argmax_def by blast
    then have peak: "?vs ! e < ?vs ! b"
      using gt j lb by simp
    have pos: "0 < ?vs ! b"
      using assms(2) lb le by simp
    then have "(?vs ! e - ?vs ! b) / ?vs ! b \<le> 0"
      using peak by (simp add: divide_le_0_iff)
    then show ?thesis using md pos by (simp add: py_div_def)
  qed
qed

theorem maximum_drawdown_nonpositive_witness:
  "[100, 150, 50 :: real] \<noteq> [] \<and> (0::real) < 100 \<and> (0::real) < 150 \<and> (0::real) < 50 \<and>
   maximum_drawdown [100, 150, 50] = Inr (- 2 / 3) \<and> (- 2 / 3 :: real) \<le> 0"
proof -
  have "maximum_drawdown [100, 150, 50] = Inr (- 2 / 3)"
    by (simp add: maximum_drawdown_def py_slice_def slice_bound_def py_index_def py_div_def)
  with maximum_drawdown_nonpositive [of "[100, 150, 50]"] show ?thesis by simp
qed

subsection \<open>Sharpe ratio\<close>

lemma np_mean_replicate: "0 < k \<Longrightarrow> np_mean (replicate k c) = c"
  by (simp add: np_mean_def sum_list_replicate)

lemma np_std_replicate: "0 < k \<Longrightarrow> np_std (replicate k c) = 0"
  by (simp add: np_std_def np_mean_replicate map_replicate_const [symmetric])

lemma sharpe_ratio_at_constant: "0 < k \<Longrightarrow> sharpe_ratio_at rate (replicate k c) = Fin 0"
  by (simp add: sharpe_ratio_at_def np_std_replicate)

text \<open>
  In exact real arithmetic: the daily risk-free rate is \<open>(1 + 0.0275)\<close> to the power
  \<open>1 / 365\<close>, minus 1. On a non-empty return sequence, \<^verbatim>\<open>sharpe_ratio_custom\<close> returns 0 when
  the standard deviation or the mean of the excess returns is 0, and their quotient
  otherwise. On returns that are all equal it returns 0, whatever the risk-free rate.
\<close>

theorem sharpe_ratio_custom_spec:
  assumes "return_rates \<noteq> []"
  shows "daily_treasury_bond_return_rate = (1 + 0.0275) powr (1 / 365) - 1 \<and>
         sharpe_ratio_custom return_rates =
           (let excess = map (\<lambda>x. x - daily_treasury_bond_return_rate) return_rates
            in if np_std excess = 0 \<or> np_mean excess = 0 then Fin 0
               else Fin (np_mean excess / np_std excess)) \<and>
         (\<forall>rate c k. 0 < k \<longrightarrow> sharpe_ratio_at rate (replicate k c) = Fin 0) \<and>
         (\<forall>c k. 0 < k \<longrightarrow> sharpe_ratio_custom (replicate k c) = Fin 0)"
proof -
  have "daily_treasury_bond_return_rate = (1 + 0.0275) powr (1 / 365) - 1"
    by (simp add: daily_treasury_bond_return_rate_def)
  moreover have "sharpe_ratio_custom return_rates =
           (let excess = map (\<lambda>x. x - daily_treasury_bond_return_rate) return_rates
            in if np_std excess = 0 \<or> np_mean excess = 0 then Fin 0
               else Fin (np_mean excess / np_std excess))"
    using assms by (simp add: sharpe_ratio_custom_def sharpe_ratio_at_def Let_def)
  ultimately show ?thesis
    by (simp add: sharpe_ratio_custom_def sharpe_ratio_at_constant)
qed

theorem sharpe_ratio_custom_spec_witness:
  "[1 / 1000, 1 / 1000, 1 / 1000 :: real] \<noteq> [] \<and> (0::nat) < 3 \<and>
   sharpe_ratio_at 0 [1 / 1000, 1 / 1000, 1 / 1000] = Fin 0 \<and>
   sharpe_ratio_custom [1 / 1000, 1 / 1000, 1 / 1000] = Fin 0"
proof -
  have r: "replicate 3 (1 / 1000 :: real) = [1 / 1000, 1 / 1000, 1 / 1000]"
    by (simp add: eval_nat_numeral)
  have ne: "[1 / 1000, 1 / 1000, 1 / 1000 :: real] \<noteq> []" by simp
  from sharpe_ratio_custom_spec [OF ne]
  have "sharpe_ratio_at 0 (replicate 3 (1 / 1000)) = Fin 0"
    and "sharpe_ratio_custom (replicate 3 (1 / 1000)) = Fin 0"
    by simp_all
  then show ?thesis using r by simp
qed

subsection \<open>Rounding to binary64\<close>

lemma rne_bounds: "\<lfloor>x\<rfloor> \<le> rne x \<and> rne x \<le> \<lfloor>x\<rfloor> + 1"
  by (simp add: rne_def Let_def)

lemma rne_of_int [simp]: "rne (of_int m) = m"
  by (simp add: rne_def)

lemma rne_numeral [simp]: "rne (numeral k) = numeral k"
  using rne_of_int [of "numeral k"] by simp

lemma rne_mono: "x \<le> y \<Longrightarrow> rne x \<le> rne y"
proof (cases "\<lfloor>x\<rfloor> = \<lfloor>y\<rfloor>")
  case True
  assume "x \<le> y"
  then have "x - of_int \<lfloor>x\<rfloor> \<le> y - of_int \<lfloor>x\<rfloor>" by simp
  then show ?thesis using True by (auto simp add: rne_def Let_def)
next
  case False
  assume "x \<le> y"
  then have "\<lfloor>x\<rfloor> \<le> \<lfloor>y\<rfloor>" by (rule floor_mono)
  then have "\<lfloor>x\<rfloor> + 1 \<le> \<lfloor>y\<rfloor>" using False by simp
  then show ?thesis using rne_bounds [of x] rne_bounds [of y] by linarith
qed

lemma rne_near: "0 \<le> m \<Longrightarrow> of_int m - 1 / 2 < x \<Longrightarrow> x < of_int m + 1 / 2 \<Longrightarrow> rne x = m"
proof -
  assume a: "of_int m - 1 / 2 < x" "x < of_int m + 1 / 2"
  show ?thesis
  proof (cases "of_int m \<le> x")
    case True
    then have "\<lfloor>x\<rfloor> = m" using a by (intro floor_unique) simp_all
    then show ?thesis using a by (simp add: rne_def)
  next
    case False
    then have "\<lfloor>x\<rfloor> = m - 1" using a by (intro floor_unique) simp_all
    then show ?thesis using a by (simp add: rne_def)
  qed
qed

lemma f64_exponent_eq:
  assumes "2 powi e \<le> \<bar>x\<bar>" "\<bar>x\<bar> < 2 powi (e + 1)" "- 1022 \<le> e"
  shows "f64_exponent x = e"
proof -
  have pos: "0 < \<bar>x\<bar>"
    using assms(1) by (smt (verit) zero_less_power_int)
  have a: "(2::real) powr real_of_int e = 2 powi e"
    and b: "(2::real) powr (real_of_int e + 1) = 2 powi (e + 1)"
    using powr_real_of_int' [of 2 e] powr_real_of_int' [of 2 "e + 1"] by simp_all
  have "\<lfloor>log 2 \<bar>x\<bar>\<rfloor> = e"
    using assms pos unfolding floor_log_eq_powr_iff [OF pos, of 2 e, simplified] a b by simp
  then show ?thesis using assms(3) by (simp add: f64_exponent_def)
qed

lemma round_f64_normal:
  assumes "2 powi e \<le> \<bar>x\<bar>" "\<bar>x\<bar> < 2 powi (e + 1)" "- 1022 \<le> e"
    and "rne (x / 2 powi (e - 52)) = m"
    and "\<bar>of_int m * 2 powi (e - 52)\<bar> < (2::real) ^ 1024"
  shows "round_f64 x = Fin (of_int m * 2 powi (e - 52))"
proof -
  have "x \<noteq> 0"
    using assms(1) by (smt (verit) zero_less_power_int)
  then show ?thesis
    using assms by (simp add: round_f64_def f64_exponent_eq Let_def)
qed

lemma round_f64_not_NaN [simp]: "round_f64 x \<noteq> NaN"
  by (simp add: round_f64_def Let_def)

lemma round_f64_nonneg:
  assumes "0 \<le> x"
  shows "round_f64 x = PosInf \<or> (\<exists>y\<ge>0. round_f64 x = Fin y)"
proof (cases "x = 0")
  case True
  then show ?thesis by (simp add: round_f64_def)
next
  case False
  define ulp :: real where "ulp = 2 powi (f64_exponent x - 52)"
  have "0 < ulp" by (simp add: ulp_def)
  then have "0 \<le> x / ulp" using assms by simp
  then have "0 \<le> \<lfloor>x / ulp\<rfloor>" by simp
  then have "0 \<le> rne (x / ulp)" using rne_bounds [of "x / ulp"] by linarith
  then have "0 \<le> of_int (rne (x / ulp)) * ulp" using \<open>0 < ulp\<close> by simp
  then show ?thesis
    using False assms by (auto simp add: round_f64_def Let_def ulp_def)
qed

lemma floor_log2_le:
  assumes "0 < x"
  shows "2 powi \<lfloor>log 2 x\<rfloor> \<le> x"
proof -
  have "2 powr real_of_int \<lfloor>log 2 x\<rfloor> \<le> x"
    using assms floor_log_eq_powr_iff [of x 2 "\<lfloor>log 2 x\<rfloor>"] by simp
  then show ?thesis using powr_real_of_int' [of 2 "\<lfloor>log 2 x\<rfloor>"] by simp
qed

lemma round_f64_ge_one:
  assumes "1 \<le> x"
  shows "round_f64 x = PosInf \<or> (\<exists>y\<ge>1. round_f64 x = Fin y)"
proof -
  define e where "e = \<lfloor>log 2 \<bar>x\<bar>\<rfloor>"
  have ax: "\<bar>x\<bar> = x" using assms by simp
  have "0 \<le> log 2 x" using assms by simp
  then have e0: "0 \<le> e" using ax by (simp add: e_def)
  then have ex: "f64_exponent x = e" by (simp add: f64_exponent_def e_def)
  have le: "2 powi e \<le> x"
    using floor_log2_le [of x] assms ax by (simp add: e_def)
  define ulp :: real where "ulp = 2 powi (e - 52)"
  have up: "0 < ulp" by (simp add: ulp_def)
  have "2 powi e = (2::real) ^ 52 * ulp"
    by (simp add: ulp_def power_int_diff)
  then have "(2::real) ^ 52 \<le> x / ulp"
    using le up by (simp add: pos_le_divide_eq)
  then have "rne (of_int (2 ^ 52)) \<le> rne (x / ulp)"
    by (intro rne_mono) simp
  then have "(2::real) ^ 52 \<le> of_int (rne (x / ulp))"
    by (simp only: rne_of_int) (metis of_int_le_iff of_int_numeral of_int_power)
  then have "2 ^ 52 * ulp \<le> of_int (rne (x / ulp)) * ulp"
    using up by simp
  moreover have "(1::real) \<le> 2 powi e"
    using e0 by (simp add: one_le_power_int)
  ultimately have "1 \<le> of_int (rne (x / ulp)) * ulp"
    using \<open>2 powi e = (2::real) ^ 52 * ulp\<close> by linarith
  then show ?thesis
    using assms ex by (auto simp add: round_f64_def Let_def ulp_def)
qed

lemma round_f64_le_pow:
  assumes "0 \<le> x" "x \<le> 2 powi k" "- 1022 \<le> k" "k \<le> 1023"
  shows "\<exists>y. round_f64 x = Fin y \<and> 0 \<le> y \<and> y \<le> 2 powi k"
proof (cases "x = 0")
  case True
  then show ?thesis by (simp add: round_f64_def)
next
  case False
  then have pos: "0 < x" using assms(1) by simp
  define e where "e = f64_exponent x"
  have "2 powi \<lfloor>log 2 x\<rfloor> \<le> (2::real) powi k"
    using floor_log2_le [OF pos] assms(2) by linarith
  then have "\<lfloor>log 2 x\<rfloor> \<le> k"
    using power_int_strict_increasing [of k "\<lfloor>log 2 x\<rfloor>" "2::real"] by (cases "\<lfloor>log 2 x\<rfloor> \<le> k") auto
  then have ek: "e \<le> k"
    using assms(3) pos by (simp add: e_def f64_exponent_def)
  define ulp :: real where "ulp = 2 powi (e - 52)"
  have up: "0 < ulp" by (simp add: ulp_def)
  define j where "j = nat (k - e + 52)"
  have pk: "2 powi k = (2::real) ^ j * ulp"
  proof -
    have "(2::real) ^ j = 2 powi (k - e + 52)"
      using ek by (simp add: j_def power_int_def)
    then show ?thesis
      by (simp add: ulp_def power_int_add [symmetric])
  qed
  then have "x / ulp \<le> 2 ^ j"
    using assms(2) up by (simp add: pos_divide_le_eq)
  then have "rne (x / ulp) \<le> rne (of_int (2 ^ j))"
    by (intro rne_mono) simp
  then have "of_int (rne (x / ulp)) \<le> (2::real) ^ j"
    by (simp only: rne_of_int) (metis of_int_le_iff of_int_numeral of_int_power)
  then have hi: "of_int (rne (x / ulp)) * ulp \<le> 2 powi k"
    using up pk by simp
  have "0 \<le> x / ulp" using pos up by simp
  then have "0 \<le> \<lfloor>x / ulp\<rfloor>" by simp
  then have "0 \<le> rne (x / ulp)" using rne_bounds [of "x / ulp"] by linarith
  then have lo: "0 \<le> of_int (rne (x / ulp)) * ulp" using up by simp
  have "(2::real) powi k < 2 powi 1024"
    using assms(4) by (intro power_int_strict_increasing) simp_all
  then have "\<bar>of_int (rne (x / ulp)) * ulp\<bar> < (2::real) ^ 1024"
    using hi lo by simp
  then show ?thesis
    using False hi lo by (simp add: round_f64_def Let_def ulp_def e_def)
qed

lemma round_f64_one [simp]: "round_f64 1 = Fin 1"
proof -
  have "round_f64 1 = Fin (of_int (2 ^ 52) * 2 powi (0 - 52))"
    by (rule round_f64_normal) simp_all
  then show ?thesis by simp
qed

subsection \<open>The features as computed in binary64\<close>

lemma sigmoid_f64_tail:
  assumes "v = PosInf \<or> (\<exists>y\<ge>0. v = Fin y)"
  shows "\<exists>w. f64_div (Fin 1) (f64_add (Fin 1) v) = Fin w \<and> 0 \<le> w \<and> w \<le> 1"
proof -
  have inf: "\<exists>w. f64_div (Fin 1) PosInf = Fin w \<and> 0 \<le> w \<and> w \<le> 1"
    by simp
  show ?thesis
  proof (cases "v = PosInf")
    case True
    then show ?thesis by simp
  next
    case False
    then obtain y where y: "v = Fin y" "0 \<le> y" using assms by auto
    then have "round_f64 (1 + y) = PosInf \<or> (\<exists>z\<ge>1. round_f64 (1 + y) = Fin z)"
      by (intro round_f64_ge_one) simp
    then show ?thesis
    proof
      assume "round_f64 (1 + y) = PosInf"
      then show ?thesis using y by simp
    next
      assume "\<exists>z\<ge>1. round_f64 (1 + y) = Fin z"
      then obtain z where z: "1 \<le> z" "round_f64 (1 + y) = Fin z" by auto
      have "\<exists>w. round_f64 (1 / z) = Fin w \<and> 0 \<le> w \<and> w \<le> 2 powi 0"
        using z(1) by (intro round_f64_le_pow) simp_all
      then show ?thesis using y z by auto
    qed
  qed
qed

lemma sigmoid_f64_unit:
  assumes "x \<noteq> NaN"
  shows "\<exists>w. sigmoid_f64 x = Fin w \<and> 0 \<le> w \<and> w \<le> 1"
proof -
  have "np_exp (f64_neg x) = PosInf \<or> (\<exists>y\<ge>0. np_exp (f64_neg x) = Fin y)"
  proof (cases x)
    case (Fin d)
    then show ?thesis using round_f64_nonneg [of "exp (- d)"] by simp
  qed (use assms in simp_all)
  then show ?thesis
    unfolding sigmoid_f64_def by (rule sigmoid_f64_tail)
qed

lemma f64_sub_Fin [simp]: "f64_sub (Fin a) (Fin b) = round_f64 (a - b)"
  by (simp add: f64_sub_def)

lemma diff_loop_f64_ok:
  "i + k < length period \<Longrightarrow>
   diff_loop_f64 period (int i) k diff =
     Inr (diff @ map (\<lambda>j. sigmoid_f64 (round_f64 (period ! Suc j - period ! j))) [i..<i + k])"
proof (induction k arbitrary: i diff)
  case 0
  then show ?case by simp
next
  case (Suc k)
  have a: "py_index period (int i + 1) = Inr (period ! Suc i)"
    using Suc.prems py_index_nat [of "Suc i" period] by (simp add: add.commute)
  have b: "py_index period (int i) = Inr (period ! i)"
    using Suc.prems by (simp add: py_index_nat)
  have "diff_loop_f64 period (int (Suc i)) k
          (diff @ [sigmoid_f64 (round_f64 (period ! Suc i - period ! i))]) =
        Inr ((diff @ [sigmoid_f64 (round_f64 (period ! Suc i - period ! i))]) @
             map (\<lambda>j. sigmoid_f64 (round_f64 (period ! Suc j - period ! j))) [Suc i..<Suc i + k])"
    using Suc.prems by (intro Suc.IH) simp
  moreover have "[i..<i + Suc k] = i # [Suc i..<Suc i + k]"
    by (simp add: upt_conv_Cons)
  moreover have "int (Suc i) = int i + 1" by simp
  ultimately show ?case
    using a b by (simp del: upt_Suc of_nat_Suc)
qed

lemma price_period_long:
  assumes "p \<noteq> []" "t < int (length p)"
  shows "\<exists>period. price_period p t n = Inr period \<and> (nat n = 0 \<or> nat n < length period)"
proof -
  obtain period where per: "price_period p t n = Inr period"
    using assms(1) price_period_defined by blast
  have "length period =
           (if 0 \<le> t - n then slice_bound (length p) (t + 1) - slice_bound (length p) (t - n)
            else nat (n - t) + slice_bound (length p) (t + 1))"
    using assms(1) per by (rule length_price_period)
  then have "nat n = 0 \<or> nat n < length period"
    using assms(2) by (auto simp add: slice_bound_def split: if_splits)
  then show ?thesis using per by blast
qed

lemma exp_minus_40: "exp (- 40 :: real) \<le> 2 powi (- 54)"
proof -
  have "(1 + 1 / of_nat 8) ^ 8 \<le> exp (1::real)"
    by (rule exp_ge_one_plus_x_over_n_power_n) simp_all
  then have "((9 / 8) ^ 8) ^ 40 \<le> exp (1::real) ^ 40"
    by (intro power_mono) simp_all
  moreover have "exp (1::real) ^ 40 = exp 40"
    using exp_of_nat_mult [of 40 "1::real"] by simp
  moreover have "(2::real) ^ 54 \<le> ((9 / 8) ^ 8) ^ 40"
    by (simp add: power_divide)
  ultimately have "(2::real) ^ 54 \<le> exp 40" by linarith
  then have "1 / exp (40::real) \<le> 1 / 2 ^ 54"
    by (intro divide_left_mono) simp_all
  then show ?thesis by (simp add: exp_minus inverse_eq_divide power_int_minus)
qed

lemma round_f64_one_plus_tiny:
  assumes "0 \<le> y" "y \<le> 2 powi (- 54)"
  shows "round_f64 (1 + y) = Fin 1"
proof -
  have y: "y \<le> 1 / 2 ^ 54" using assms(2) by (simp add: power_int_minus inverse_eq_divide)
  have "round_f64 (1 + y) = Fin (of_int (2 ^ 52) * 2 powi (0 - 52))"
  proof (rule round_f64_normal)
    show "rne ((1 + y) / 2 powi (0 - 52)) = 2 ^ 52"
    proof (rule rne_near)
      have "(1 + y) / 2 powi (0 - 52) = 2 ^ 52 + y * 2 ^ 52"
        by (simp add: power_int_minus field_simps)
      moreover have "y * 2 ^ 52 \<le> 1 / 4" using y by simp
      moreover have "0 \<le> y * 2 ^ 52" using assms(1) by simp
      ultimately show "real_of_int (2 ^ 52) - 1 / 2 < (1 + y) / 2 powi (0 - 52)"
        and "(1 + y) / 2 powi (0 - 52) < real_of_int (2 ^ 52) + 1 / 2"
        by simp_all
    qed simp
  qed (use assms y in simp_all)
  then show ?thesis by simp
qed

lemma generate_price_state_f64_rise:
  "generate_price_state_f64 [0, 40] 1 1 = Inr [[Fin 1]]"
proof -
  have per: "price_period [0, 40] 1 1 = Inr [0, 40]"
    by (simp add: price_period_def py_slice_def slice_bound_def)
  have r40: "round_f64 40 = Fin 40"
  proof -
    have "round_f64 40 = Fin (of_int (40 * 2 ^ 47) * 2 powi (5 - 52))"
      by (rule round_f64_normal) simp_all
    then show ?thesis by simp
  qed
  obtain y where y: "round_f64 (exp (- 40)) = Fin y" "0 \<le> y" "y \<le> 2 powi (- 54)"
    using round_f64_le_pow [of "exp (- 40)" "- 54"] exp_minus_40 by auto
  have "sigmoid_f64 (Fin 40) = Fin 1"
    using y by (simp add: sigmoid_f64_def round_f64_one_plus_tiny)
  then show ?thesis
    using per r40 by (simp add: generate_price_state_f64_def py_index_def)
qed

text \<open>
  As computed, a feature is not always strictly below 1: on the prices 0 and 40 the
  exponential of \<open>-40\<close> is below half a unit in the last place of 1, the sum \<open>1 + exp (-40)\<close>
  rounds to 1, and the feature is exactly 1.
\<close>

theorem generate_price_state_saturates:
  "(0::int) \<le> 1 \<and> (1::int) < int (length [0, 40 :: real]) \<and>
   generate_price_state_f64 [0, 40] 1 1 = Inr [[Fin 1]] \<and> \<not> (1::real) < 1"
  by (simp add: generate_price_state_f64_rise)

text \<open>
  Claim C5, amended. For a price series, a window length \<open>n\<close> and a valid index \<open>t\<close>, the row
  that \<^verbatim>\<open>generate_price_state\<close> returns has exactly \<open>n\<close> elements (none for a negative \<open>n\<close>),
  each in the closed interval from 0 to 1 as computed in binary64; in exact real
  arithmetic each is strictly between 0 and 1.
\<close>

theorem generate_price_state_unit_interval:
  assumes "0 \<le> t" "t < int (length stock_prices)"
  shows "(\<exists>row. generate_price_state_f64 stock_prices t n = Inr [row] \<and> length row = nat n \<and>
                (\<forall>v \<in> set row. \<exists>y. v = Fin y \<and> 0 \<le> y \<and> y \<le> 1)) \<and>
         (\<exists>row. generate_price_state stock_prices t n = Inr [row] \<and> length row = nat n \<and>
                (\<forall>x \<in> set row. 0 < x \<and> x < 1))"
proof -
  have ne: "stock_prices \<noteq> []" using assms by auto
  obtain period where per: "price_period stock_prices t n = Inr period"
    and long: "nat n = 0 \<or> nat n < length period"
    using price_period_long [OF ne assms(2)] by blast
  define row where
    "row = map (\<lambda>j. sigmoid_f64 (round_f64 (period ! Suc j - period ! j))) [0..<nat n]"
  have "diff_loop_f64 period 0 (nat n) [] = Inr row"
  proof (cases "nat n = 0")
    case True
    then show ?thesis by (simp add: row_def)
  next
    case False
    then have "0 + nat n < length period" using long by simp
    then have "diff_loop_f64 period (int 0) (nat n) [] =
        Inr ([] @ map (\<lambda>j. sigmoid_f64 (round_f64 (period ! Suc j - period ! j)))
                    [0..<0 + nat n])"
      by (rule diff_loop_f64_ok)
    then show ?thesis by (simp add: row_def)
  qed
  then have "generate_price_state_f64 stock_prices t n = Inr [row]"
    using per by (simp add: generate_price_state_f64_def)
  moreover have "length row = nat n" by (simp add: row_def)
  moreover have "\<forall>v \<in> set row. \<exists>y. v = Fin y \<and> 0 \<le> y \<and> y \<le> 1"
    using sigmoid_f64_unit by (auto simp add: row_def)
  ultimately show ?thesis
    using generate_price_state_bounded [OF assms, of n] by blast
qed

theorem generate_price_state_unit_interval_witness:
  "(0::int) \<le> 1 \<and> (1::int) < int (length [0, 40 :: real]) \<and>
   generate_price_state_f64 [0, 40] 1 1 = Inr [[Fin 1]] \<and> (0::real) \<le> 1 \<and> (1::real) \<le> 1 \<and>
   generate_price_state [0, 40] 1 1 = Inr [[sigmoid 40]] \<and> 0 < sigmoid 40 \<and> sigmoid 40 < 1"
proof -
  have a: "(0::int) \<le> 1" and b: "(1::int) < int (length [0, 40 :: real])" by simp_all
  have c: "generate_price_state [0, 40] 1 1 = Inr [[sigmoid 40]]"
    by (simp add: generate_price_state_def price_period_def py_slice_def slice_bound_def
        py_index_def)
  from generate_price_state_unit_interval [OF a b, of 1] c generate_price_state_f64_rise
  show ?thesis by simp
qed

subsection \<open>The Sharpe ratio as computed in binary64\<close>

lemma round_f64_zero [simp]: "round_f64 0 = Fin 0"
  by (simp add: round_f64_def)

lemma round_f64_exact:
  assumes "x = of_int m * 2 powi (e - 52)" "2 ^ 52 \<le> \<bar>m\<bar>" "\<bar>m\<bar> < 2 ^ 53"
    "- 1022 \<le> e" "e \<le> 1023"
  shows "round_f64 x = Fin x"
proof -
  define ulp :: real where "ulp = 2 powi (e - 52)"
  have up: "0 < ulp" by (simp add: ulp_def)
  have ax: "\<bar>x\<bar> = of_int \<bar>m\<bar> * ulp"
    using up by (simp add: assms(1) ulp_def abs_mult)
  have e0: "2 powi e = (2::real) ^ 52 * ulp"
    by (simp add: ulp_def power_int_diff)
  have e1: "2 powi (e + 1) = (2::real) ^ 53 * ulp"
    by (simp add: ulp_def power_int_diff power_int_add)
  have m1: "(2::real) ^ 52 \<le> of_int \<bar>m\<bar>"
    using assms(2) by (metis of_int_le_iff of_int_numeral of_int_power)
  have m2: "of_int \<bar>m\<bar> < (2::real) ^ 53"
    using assms(3) by (metis of_int_less_iff of_int_numeral of_int_power)
  have lo: "2 powi e \<le> \<bar>x\<bar>"
    unfolding ax e0 using m1 up by (intro mult_right_mono) simp_all
  have hi: "\<bar>x\<bar> < 2 powi (e + 1)"
    unfolding ax e1 using m2 up by (intro mult_strict_right_mono) simp_all
  have "(2::real) powi (e + 1) \<le> 2 powi 1024"
    using assms(5) by (intro power_int_increasing) simp_all
  then have big: "\<bar>of_int m * 2 powi (e - 52)\<bar> < (2::real) ^ 1024"
    using hi by (simp add: assms(1))
  have "rne (x / 2 powi (e - 52)) = m"
    by (simp add: assms(1))
  then have "round_f64 x = Fin (of_int m * 2 powi (e - 52))"
    using lo hi assms(4) big by (intro round_f64_normal)
  then show ?thesis by (simp add: assms(1))
qed

lemma foldl_f64_add_zeros: "foldl f64_add (Fin 0) (replicate n (Fin 0)) = Fin 0"
  by (induction n) simp_all

lemma block_sum_zeros:
  assumes "8 \<le> n"
  shows "block_sum (replicate n (Fin 0)) = Fin 0"
proof -
  have rows: "foldl (\<lambda>r j. map2 f64_add r (take 8 (drop (8 * j) (replicate n (Fin 0)))))
               (replicate 8 (Fin 0)) js = replicate 8 (Fin 0)"
    if "\<forall>j \<in> set js. 8 * j + 8 \<le> n" for js
    using that
  proof (induction js)
    case Nil
    then show ?case by simp
  next
    case (Cons j js)
    then have "8 * j + 8 \<le> n" by simp
    then have "min 8 (n - 8 * j) = 8" by simp
    then have "map2 f64_add (replicate 8 (Fin 0)) (take 8 (drop (8 * j) (replicate n (Fin 0))))
               = replicate 8 (Fin 0)"
      by (simp add: zip_replicate map_replicate_const)
    then show ?case using Cons by (simp)
  qed
  have "\<forall>j \<in> set [1..<n div 8]. 8 * j + 8 \<le> n"
    by auto
  then have r: "foldl (\<lambda>r j. map2 f64_add r (take 8 (drop (8 * j) (replicate n (Fin 0)))))
               (take 8 (replicate n (Fin 0))) [1..<n div 8] = replicate 8 (Fin 0)"
    using rows [of "[1..<n div 8]"] assms by (simp add: min_def)
  show ?thesis
    unfolding block_sum_def Let_def length_replicate r
    by (simp add: foldl_f64_add_zeros)
qed

lemma pairwise_sum_zeros: "pairwise_sum (replicate n (Fin 0)) = Fin 0"
proof (induction n rule: less_induct)
  case (less n)
  show ?case
  proof (cases "n < 8")
    case True
    then show ?thesis
      by (subst pairwise_sum.simps) (simp add: foldl_f64_add_zeros)
  next
    case False
    show ?thesis
    proof (cases "n \<le> 128")
      case True
      then show ?thesis
        using False by (subst pairwise_sum.simps) (simp add: block_sum_zeros)
    next
      case big: False
      have "64 \<le> n div 2" using big by simp
      moreover have "n div 2 mod 8 < 8" by simp
      ultimately have h: "0 < half8 n" "half8 n < n"
        unfolding half8_def by linarith+
      then have "pairwise_sum (replicate (half8 n) (Fin 0)) = Fin 0"
        and "pairwise_sum (replicate (n - half8 n) (Fin 0)) = Fin 0"
        by (intro less.IH; simp)+
      then show ?thesis
        using False big h by (subst pairwise_sum.simps) (simp add: min_def)
    qed
  qed
qed

lemma np_sum_f64_zeros: "np_sum_f64 (replicate n (Fin 0)) = Fin 0"
  by (simp add: np_sum_f64_def pairwise_sum_zeros)

lemma sharpe_ratio_at_f64_constant:
  assumes "0 < k" "f64_sub (Fin c) rate = Fin v" "np_mean_f64 (replicate k (Fin v)) = Fin v"
  shows "sharpe_ratio_at_f64 rate (replicate k c) = Fin 0"
proof -
  have m: "f64_div (np_sum_f64 (replicate k (Fin v))) (Fin (real k)) = Fin v"
    using assms(3) by (simp add: np_mean_f64_def)
  have "np_std_f64 (replicate k (Fin v)) = Fin 0"
    using assms(1) by (simp add: np_std_f64_def m np_sum_f64_zeros)
  then show ?thesis
    using assms(2) by (simp add: sharpe_ratio_at_f64_def)
qed

text \<open>
  The returns 0.1, 0.1, 0.1 at the rate 0, step by step: the sum of the three is a tie
  and rounds up, the mean is one unit in the last place above 0.1, and the standard
  deviation is \<open>2\<^sup>-\<^sup>5\<^sup>6\<close>, not 0.
\<close>

lemma tenth_rounded: "round_f64 (1 / 10) = Fin (3602879701896397 / 2 ^ 55)"
proof -
  have "round_f64 (1 / 10) = Fin (of_int 7205759403792794 * 2 powi (- 4 - 52))"
    by (rule round_f64_normal) (simp_all add: rne_def)
  then show ?thesis by simp
qed

lemma tenth_kept: "round_f64 (3602879701896397 / 2 ^ 55) = Fin (3602879701896397 / 2 ^ 55)"
  by (rule round_f64_exact [where m = 7205759403792794 and e = "- 4"]) simp_all

lemma tenth_twice:
  "round_f64 (3602879701896397 / 2 ^ 55 + 3602879701896397 / 2 ^ 55) =
   Fin (3602879701896397 / 2 ^ 54)"
proof -
  have "round_f64 (3602879701896397 / 2 ^ 54) = Fin (3602879701896397 / 2 ^ 54)"
    by (rule round_f64_exact [where m = 7205759403792794 and e = "- 3"]) simp_all
  then show ?thesis by simp
qed

lemma tenth_thrice:
  "round_f64 (3602879701896397 / 2 ^ 54 + 3602879701896397 / 2 ^ 55) =
   Fin (5404319552844596 / 2 ^ 54)"
proof -
  have "round_f64 (3602879701896397 / 2 ^ 54 + 3602879701896397 / 2 ^ 55) =
        Fin (of_int 5404319552844596 * 2 powi (- 2 - 52))"
    by (rule round_f64_normal) (simp_all add: rne_def)
  then show ?thesis by simp
qed

lemma sum_kept: "round_f64 (5404319552844596 / 2 ^ 54) = Fin (5404319552844596 / 2 ^ 54)"
  by (rule round_f64_exact [where m = 5404319552844596 and e = "- 2"]) simp_all

lemma mean_rounded:
  "round_f64 (5404319552844596 / 2 ^ 54 / 3) = Fin (7205759403792795 / 2 ^ 56)"
proof -
  have "round_f64 (5404319552844596 / 2 ^ 54 / 3) =
        Fin (of_int 7205759403792795 * 2 powi (- 4 - 52))"
    by (rule round_f64_normal) (simp_all add: rne_def)
  then show ?thesis by simp
qed

lemma deviation_kept:
  "round_f64 (3602879701896397 / 2 ^ 55 - 7205759403792795 / 2 ^ 56) = Fin (- (1 / 2 ^ 56))"
proof -
  have "round_f64 (- (1 / 2 ^ 56)) = Fin (- (1 / 2 ^ 56))"
    by (rule round_f64_exact [where m = "- (2 ^ 52)" and e = "- 56"]) simp_all
  then show ?thesis by simp
qed

lemma pow2_kept:
  assumes "- 1022 \<le> e" "e \<le> 1023"
  shows "round_f64 (2 powi e) = Fin (2 powi e)"
  by (rule round_f64_exact [where m = "2 ^ 52" and e = e])
    (use assms in \<open>simp_all add: power_int_diff\<close>)

lemma square_kept: "round_f64 (1 / 2 ^ 112) = Fin (1 / 2 ^ 112)"
  using pow2_kept [of "- 112"] by simp

lemma square_twice: "round_f64 (1 / 2 ^ 112 + 1 / 2 ^ 112) = Fin (1 / 2 ^ 111)"
  using pow2_kept [of "- 111"] by simp

lemma square_thrice: "round_f64 (1 / 2 ^ 111 + 1 / 2 ^ 112) = Fin (3 / 2 ^ 112)"
proof -
  have "round_f64 (3 / 2 ^ 112) = Fin (3 / 2 ^ 112)"
    by (rule round_f64_exact [where m = "3 * 2 ^ 51" and e = "- 111"]) simp_all
  then show ?thesis by simp
qed

lemma squares_kept: "round_f64 (3 / 2 ^ 112) = Fin (3 / 2 ^ 112)"
  by (rule round_f64_exact [where m = "3 * 2 ^ 51" and e = "- 111"]) simp_all

lemma root_kept: "round_f64 (sqrt (1 / 2 ^ 112)) = Fin (1 / 2 ^ 56)"
proof -
  have a: "sqrt (1 / 2 ^ 112) = (1 / 2 ^ 56 :: real)"
    by (rule real_sqrt_unique) (simp_all add: power2_eq_square)
  have b: "round_f64 (1 / 2 ^ 56) = Fin (1 / 2 ^ 56)"
    using pow2_kept [of "- 56"] by simp
  show ?thesis unfolding a by (rule b)
qed

lemma quotient_kept:
  "round_f64 (7205759403792795 / 2 ^ 56 / (1 / 2 ^ 56)) = Fin 7205759403792795"
proof -
  have "round_f64 7205759403792795 = Fin 7205759403792795"
    by (rule round_f64_exact [where m = 7205759403792795 and e = 52]) simp_all
  then show ?thesis by simp
qed

lemma sharpe_ratio_at_f64_tenths:
  "sharpe_ratio_at_f64 (Fin 0)
     [3602879701896397 / 2 ^ 55, 3602879701896397 / 2 ^ 55, 3602879701896397 / 2 ^ 55] =
   Fin 7205759403792795"
proof -
  define x :: real where "x = 3602879701896397 / 2 ^ 55"
  define x2 :: real where "x2 = 3602879701896397 / 2 ^ 54"
  define s :: real where "s = 5404319552844596 / 2 ^ 54"
  define m :: real where "m = 7205759403792795 / 2 ^ 56"
  define d :: real where "d = - (1 / 2 ^ 56)"
  define q :: real where "q = 1 / 2 ^ 112"
  define q2 :: real where "q2 = 1 / 2 ^ 111"
  define q3 :: real where "q3 = 3 / 2 ^ 112"
  define sd :: real where "sd = 1 / 2 ^ 56"
  have r1: "round_f64 x = Fin x"
    unfolding x_def by (rule tenth_kept)
  have r2: "round_f64 (x + x) = Fin x2"
    unfolding x_def x2_def by (rule tenth_twice)
  have r2': "round_f64 (2 * x) = Fin x2"
    using r2 by (simp only: mult_2)
  have r3: "round_f64 (x2 + x) = Fin s"
    unfolding x_def x2_def s_def by (rule tenth_thrice)
  have r4: "round_f64 s = Fin s"
    unfolding s_def by (rule sum_kept)
  have r5: "round_f64 (s / 3) = Fin m"
    unfolding s_def m_def by (rule mean_rounded)
  have r6: "round_f64 (x - m) = Fin d"
    unfolding x_def m_def d_def by (rule deviation_kept)
  have r7: "round_f64 (d * d) = Fin q"
    unfolding d_def q_def using square_kept by simp
  have r8: "round_f64 q = Fin q"
    unfolding q_def by (rule square_kept)
  have r9: "round_f64 (q + q) = Fin q2"
    unfolding q_def q2_def by (rule square_twice)
  have r9': "round_f64 (2 * q) = Fin q2"
    using r9 by (simp only: mult_2)
  have r10: "round_f64 (q2 + q) = Fin q3"
    unfolding q_def q2_def q3_def by (rule square_thrice)
  have r11: "round_f64 q3 = Fin q3"
    unfolding q3_def by (rule squares_kept)
  have r12: "round_f64 (q3 / 3) = Fin q"
    unfolding q3_def q_def using square_kept by simp
  have r13: "round_f64 (sqrt q) = Fin sd"
    unfolding q_def sd_def by (rule root_kept)
  have r14: "round_f64 (m / sd) = Fin 7205759403792795"
    unfolding m_def sd_def by (rule quotient_kept)
  have nz: "0 \<le> q" "sd \<noteq> 0" "m \<noteq> 0"
    by (simp_all add: q_def sd_def m_def)
  have excess: "map (\<lambda>a. f64_sub (Fin a) (Fin 0)) [x, x, x] = [Fin x, Fin x, Fin x]"
    by (simp add: r1)
  have total: "np_sum_f64 [Fin x, Fin x, Fin x] = Fin s"
    by (simp add: np_sum_f64_def pairwise_sum.simps r1 r2' r3 r4)
  have mean: "np_mean_f64 [Fin x, Fin x, Fin x] = Fin m"
    by (simp add: np_mean_f64_def total r5)
  have squares: "np_sum_f64 [Fin q, Fin q, Fin q] = Fin q3"
    by (simp add: np_sum_f64_def pairwise_sum.simps r8 r9' r10 r11)
  have std: "np_std_f64 [Fin x, Fin x, Fin x] = Fin sd"
    using nz(1) by (simp add: np_std_f64_def total r5 r6 r7 squares r12 r13)
  have "sharpe_ratio_at_f64 (Fin 0) [x, x, x] = Fin 7205759403792795"
    using nz by (simp add: sharpe_ratio_at_f64_def Let_def r1 mean std r14)
  then show ?thesis by (simp only: x_def)
qed

lemma np_mean_f64_quarters: "np_mean_f64 [Fin (1 / 4), Fin (1 / 4), Fin (1 / 4)] = Fin (1 / 4)"
proof -
  have a: "round_f64 (1 / 4) = Fin (1 / 4)"
    using pow2_kept [of "- 2"] by simp
  have b: "round_f64 (1 / 2) = Fin (1 / 2)"
    using pow2_kept [of "- 1"] by simp
  have c: "round_f64 (3 / 4) = Fin (3 / 4)"
    by (rule round_f64_exact [where m = "3 * 2 ^ 51" and e = "- 1"]) simp_all
  show ?thesis
    by (simp add: np_mean_f64_def np_sum_f64_def pairwise_sum.simps a b c)
qed

text \<open>
  As computed, equal returns do not always give 0: the binary64 number next to 0.1,
  three times, at the rate 0, gives 7205759403792795.
\<close>

theorem sharpe_ratio_equal_returns_counterexample:
  "round_f64 (1 / 10) = Fin (3602879701896397 / 2 ^ 55) \<and>
   sharpe_ratio_at_f64 (Fin 0)
     [3602879701896397 / 2 ^ 55, 3602879701896397 / 2 ^ 55, 3602879701896397 / 2 ^ 55] =
   Fin 7205759403792795 \<and>
   Fin 7205759403792795 \<noteq> Fin 0"
  using tenth_rounded sharpe_ratio_at_f64_tenths by simp

text \<open>
  Claim C2, amended. The daily risk-free rate is \<open>(1 + 0.0275)\<close> to the power \<open>1 / 365\<close>,
  minus 1. On a non-empty return sequence, \<^verbatim>\<open>sharpe_ratio_custom\<close> returns 0 when the
  standard deviation or the mean of the excess returns is 0, and their quotient
  otherwise, in exact arithmetic and, with the computed mean and standard deviation, in
  binary64. Returns that are all equal give 0 for every risk-free rate in exact
  arithmetic, and in binary64 whenever the computed mean of the excess returns is their
  common value.
\<close>

theorem sharpe_ratio_custom_computed:
  assumes "return_rates \<noteq> []"
  shows "daily_treasury_bond_return_rate = (1 + 0.0275) powr (1 / 365) - 1 \<and>
         sharpe_ratio_custom return_rates =
           (let excess = map (\<lambda>x. x - daily_treasury_bond_return_rate) return_rates
            in if np_std excess = 0 \<or> np_mean excess = 0 then Fin 0
               else Fin (np_mean excess / np_std excess)) \<and>
         (\<forall>rate. sharpe_ratio_at_f64 rate return_rates =
           (let excess = map (\<lambda>x. f64_sub (Fin x) rate) return_rates
            in if np_std_f64 excess = Fin 0 \<or> np_mean_f64 excess = Fin 0 then Fin 0
               else f64_div (np_mean_f64 excess) (np_std_f64 excess))) \<and>
         (\<forall>rate c k. 0 < k \<longrightarrow> sharpe_ratio_at rate (replicate k c) = Fin 0) \<and>
         (\<forall>rate c k v.
            0 < k \<and> f64_sub (Fin c) rate = Fin v \<and>
            np_mean_f64 (replicate k (Fin v)) = Fin v \<longrightarrow>
            sharpe_ratio_at_f64 rate (replicate k c) = Fin 0)"
proof -
  have "\<forall>rate. sharpe_ratio_at_f64 rate return_rates =
           (let excess = map (\<lambda>x. f64_sub (Fin x) rate) return_rates
            in if np_std_f64 excess = Fin 0 \<or> np_mean_f64 excess = Fin 0 then Fin 0
               else f64_div (np_mean_f64 excess) (np_std_f64 excess))"
    by (simp add: sharpe_ratio_at_f64_def Let_def)
  moreover have "\<forall>rate c k v.
            0 < k \<and> f64_sub (Fin c) rate = Fin v \<and>
            np_mean_f64 (replicate k (Fin v)) = Fin v \<longrightarrow>
            sharpe_ratio_at_f64 rate (replicate k c) = Fin 0"
    using sharpe_ratio_at_f64_constant by blast
  ultimately show ?thesis
    using sharpe_ratio_custom_spec [OF assms] by blast
qed

theorem sharpe_ratio_custom_computed_witness:
  "[1 / 4, 1 / 4, 1 / 4 :: real] \<noteq> [] \<and> (0::nat) < 3 \<and>
   f64_sub (Fin (1 / 4)) (Fin 0) = Fin (1 / 4) \<and>
   np_mean_f64 [Fin (1 / 4), Fin (1 / 4), Fin (1 / 4)] = Fin (1 / 4) \<and>
   sharpe_ratio_at_f64 (Fin 0) [1 / 4, 1 / 4, 1 / 4] = Fin 0 \<and>
   sharpe_ratio_at 0 [1 / 4, 1 / 4, 1 / 4] = Fin 0"
proof -
  have ne: "[1 / 4, 1 / 4, 1 / 4 :: real] \<noteq> []" by simp
  have r: "replicate 3 (1 / 4 :: real) = [1 / 4, 1 / 4, 1 / 4]"
    "replicate 3 (Fin (1 / 4)) = [Fin (1 / 4), Fin (1 / 4), Fin (1 / 4)]"
    by (simp_all add: eval_nat_numeral)
  have a: "f64_sub (Fin (1 / 4)) (Fin 0) = Fin (1 / 4)"
    using pow2_kept [of "- 2"] by simp
  note t = sharpe_ratio_custom_computed [OF ne]
  from t have "sharpe_ratio_at 0 (replicate 3 (1 / 4)) = Fin 0" by simp
  moreover from t a np_mean_f64_quarters r(2)
  have "sharpe_ratio_at_f64 (Fin 0) (replicate 3 (1 / 4)) = Fin 0"
    by (metis zero_less_numeral)
  ultimately show ?thesis
    using a np_mean_f64_quarters r(1) by simp
qed

end
